theory Spec2Isabelle
  imports Main "HOL-Library.Sublist"
begin

section \<open>Dom.js: css queries over a page\<close>

text \<open>
  This development embeds \<^verbatim>\<open>Addons/Dom.js\<close>: the selector matcher
  (\<^verbatim>\<open>getElements\<close>), the query functions built on it
  (\<^verbatim>\<open>getElementsBySelector\<close>, \<^verbatim>\<open>getElement\<close>,
  \<^verbatim>\<open>$E\<close>, \<^verbatim>\<open>$ES\<close>) and the class \<^verbatim>\<open>Elements\<close>
  (\<^verbatim>\<open>action\<close> and the four filters). The file depends on \<^verbatim>\<open>Moo.js\<close>,
  \<^verbatim>\<open>Function.js\<close>, \<^verbatim>\<open>Array.js\<close>, \<^verbatim>\<open>String.js\<close> and
  \<^verbatim>\<open>Element.js\<close>; what it uses of them is modelled from the spec and marked so.
\<close>

subsection \<open>Character classes of the patterns\<close>

text \<open>The class \<^verbatim>\<open>\w\<close>: letters, digits and the underscore.\<close>

definition is_word :: "char \<Rightarrow> bool" where
  "is_word c = (let n = (of_char c :: nat) in
     (48 \<le> n \<and> n \<le> 57) \<or> (65 \<le> n \<and> n \<le> 90) \<or> n = 95 \<or> (97 \<le> n \<and> n \<le> 122))"

text \<open>The class \<^verbatim>\<open>[\w_-]\<close> (the same characters as \<^verbatim>\<open>[\w-]\<close>).\<close>

definition is_name :: "char \<Rightarrow> bool" where
  "is_name c = (is_word c \<or> c = CHR ''_'' \<or> c = CHR ''-'')"

text \<open>The class \<^verbatim>\<open>["']\<close>.\<close>

definition is_quote :: "char \<Rightarrow> bool" where
  "is_quote c = (c = CHR 0x22 \<or> c = CHR 0x27)"

text \<open>The class \<^verbatim>\<open>[\*\^\$]\<close>.\<close>

definition is_opchar :: "char \<Rightarrow> bool" where
  "is_opchar c = (c = CHR ''*'' \<or> c = CHR ''^'' \<or> c = CHR ''$'')"

text \<open>The class \<^verbatim>\<open>\s\<close>, on bytes: space, tab, line feed, vertical tab, form feed,
  carriage return.\<close>

definition is_space :: "char \<Rightarrow> bool" where
  "is_space c = (c = CHR '' '' \<or> c = CHR 0x09 \<or> c = CHR 0x0A \<or> c = CHR 0x0B
     \<or> c = CHR 0x0C \<or> c = CHR 0x0D)"

subsection \<open>The host's pattern matcher\<close>

text \<open>
  The patterns of the source are built from literal characters, character classes, the
  assertions \<^verbatim>\<open>^\<close> and \<^verbatim>\<open>$\<close>, sequence, alternative, the greedy
  quantifiers \<^verbatim>\<open>?\<close> on a group or class and \<^verbatim>\<open>*\<close>, \<^verbatim>\<open>+\<close>,
  \<^verbatim>\<open>{1,}\<close> on a class, and capturing groups. A non-capturing group
  \<^verbatim>\<open>(?:...)\<close> is only bracketing. No optional part of these patterns can match the
  empty string, so the host's rule against empty iterations plays no part.
\<close>

datatype regex =
    Eps
  | Chr char
  | Cls "char \<Rightarrow> bool"
  | Bol
  | Eol
  | Seq regex regex
  | Alt regex regex
  | Opt regex
  | Star "char \<Rightarrow> bool"
  | Plus "char \<Rightarrow> bool"
  | Grp nat regex

fun seqs :: "regex list \<Rightarrow> regex" where
  "seqs [] = Eps"
| "seqs [r] = r"
| "seqs (r # rs) = Seq r (seqs rs)"

definition lits :: "string \<Rightarrow> regex" where
  "lits s = seqs (map Chr s)"

text \<open>
  A matcher state: whether the position is the start of the subject, the rest of the
  subject, and the captures so far (index 0 is the whole match; an index that is not bound
  is a group that did not take part, \<^verbatim>\<open>undefined\<close> in the host).
\<close>

type_synonym captures = "nat \<rightharpoonup> string"
type_synonym mstate = "bool \<times> string \<times> captures"

text \<open>The rests of the subject after a greedy \<^verbatim>\<open>*\<close> on a class, in the order in
  which backtracking tries them: the longest run first.\<close>

fun star :: "(char \<Rightarrow> bool) \<Rightarrow> string \<Rightarrow> string list" where
  "star P [] = [[]]"
| "star P (x # xs) = (if P x then star P xs @ [x # xs] else [x # xs])"

text \<open>All the ways a pattern matches at a state, in the order of backtracking: the head of
  the list is the match the host reports.\<close>

fun ms :: "regex \<Rightarrow> mstate \<Rightarrow> mstate list" where
  "ms Eps st = [st]"
| "ms (Chr c) (b, s, g) = (case s of [] \<Rightarrow> [] | x # xs \<Rightarrow> if x = c then [(False, xs, g)] else [])"
| "ms (Cls P) (b, s, g) = (case s of [] \<Rightarrow> [] | x # xs \<Rightarrow> if P x then [(False, xs, g)] else [])"
| "ms Bol (b, s, g) = (if b then [(b, s, g)] else [])"
| "ms Eol (b, s, g) = (if s = [] then [(b, s, g)] else [])"
| "ms (Seq r1 r2) st = concat (map (ms r2) (ms r1 st))"
| "ms (Alt r1 r2) st = ms r1 st @ ms r2 st"
| "ms (Opt r) st = ms r st @ [st]"
| "ms (Star P) (b, s, g) = map (\<lambda>s'. (b \<and> length s' = length s, s', g)) (star P s)"
| "ms (Plus P) (b, s, g) =
     (case s of [] \<Rightarrow> [] | x # xs \<Rightarrow> if P x then map (\<lambda>s'. (False, s', g)) (star P xs) else [])"
| "ms (Grp i r) (b, s, g) =
     map (\<lambda>(b', s', g'). (b', s', g'(i \<mapsto> take (length s - length s') s))) (ms r (b, s, g))"

text \<open>\<^verbatim>\<open>String.match\<close> with a pattern that has no \<^verbatim>\<open>g\<close> flag: the first match
  at the leftmost position that has one, or \<^verbatim>\<open>null\<close>.\<close>

fun search :: "regex \<Rightarrow> bool \<Rightarrow> string \<Rightarrow> captures option" where
  "search r b s =
     (case ms (Grp 0 r) (b, s, Map.empty) of
        (b', s', g) # rest \<Rightarrow> Some g
      | [] \<Rightarrow> (case s of [] \<Rightarrow> None | x # xs \<Rightarrow> search r False xs))"

text \<open>
  Modelled from the spec: \<^verbatim>\<open>String.test\<close> of \<^verbatim>\<open>String.js\<close>, which is not in
  this file. It is the pattern search of the subject (the spec's "pattern-search semantics"):
  the host's \<^verbatim>\<open>match\<close> with the pattern compiled without flags. Its result is the
  array of the match (truthy) or \<^verbatim>\<open>null\<close>.
\<close>

definition test :: "string \<Rightarrow> regex \<Rightarrow> captures option" where
  "test s r = search r True s"

subsection \<open>The three fixed patterns of the source\<close>

text \<open>
  The pattern of \<^verbatim>\<open>getElements\<close>:
  \<^verbatim>\<open>^(\w*|\*)(?:#([\w_-]+)|\.([\w_-]+))?(?:\[["']?(\w+)["']?(?:([\*\^\$]?=)["']?(\w*)["']?)?\])?$\<close>
\<close>

definition selector_re :: regex where
  "selector_re = seqs
     [Bol,
      Grp 1 (Alt (Star is_word) (Chr CHR ''*'')),
      Opt (Alt (Seq (Chr CHR ''#'') (Grp 2 (Plus is_name)))
               (Seq (Chr CHR ''.'') (Grp 3 (Plus is_name)))),
      Opt (seqs
        [Chr CHR ''['', Opt (Cls is_quote), Grp 4 (Plus is_word), Opt (Cls is_quote),
         Opt (seqs
           [Grp 5 (Seq (Opt (Cls is_opchar)) (Chr CHR ''='')),
            Opt (Cls is_quote), Grp 6 (Star is_word), Opt (Cls is_quote)]),
         Chr CHR '']'']),
      Eol]"

text \<open>The first pattern of \<^verbatim>\<open>action\<close>: \<^verbatim>\<open>^on[\w]{1,}\<close>\<close>

definition on_re :: regex where
  "on_re = seqs [Bol, Chr CHR ''o'', Chr CHR ''n'', Plus is_word]"

text \<open>The second pattern of \<^verbatim>\<open>action\<close>: \<^verbatim>\<open>([\w-]{1,})event$\<close>\<close>

definition event_re :: regex where
  "event_re = seqs [Grp 1 (Plus is_name), lits ''event'', Eol]"

subsection \<open>Patterns compiled from a string\<close>

text \<open>
  \<^verbatim>\<open>filterByAttribute\<close> compiles patterns from its argument. The characters with a
  meaning of their own in the host's pattern language, besides the two assertions:
\<close>

definition is_special :: "char \<Rightarrow> bool" where
  "is_special c = (c \<in> set [CHR 0x5C, CHR ''.'', CHR ''|'', CHR ''?'', CHR ''*'', CHR ''+'',
     CHR ''('', CHR '')'', CHR ''['', CHR '']'', CHR ''{'', CHR ''}''])"

datatype error = Unsupported_pattern

text \<open>
  \<^verbatim>\<open>new RegExp(p)\<close> for a pattern of literal characters and assertions. A pattern with a
  special character is outside this development: the host either throws a
  \<^verbatim>\<open>SyntaxError\<close> or compiles a pattern that is not modelled; both are the error value,
  so where it arises nothing is said of what the host returns. The values that the selector
  pattern yields are never such patterns.
\<close>

fun atoms :: "string \<Rightarrow> error + regex list" where
  "atoms [] = Inr []"
| "atoms (c # cs) =
     (if is_special c then Inl Unsupported_pattern
      else case atoms cs of
        Inl e \<Rightarrow> Inl e
      | Inr rs \<Rightarrow> Inr ((if c = CHR ''^'' then Bol else if c = CHR ''$'' then Eol else Chr c) # rs))"

definition RegExp :: "string \<Rightarrow> error + regex" where
  "RegExp p = (case atoms p of Inl e \<Rightarrow> Inl e | Inr rs \<Rightarrow> Inr (seqs rs))"

subsection \<open>The page\<close>

text \<open>
  The page is a tree of elements. An element is referred to by its position: the child
  indexes on the way from the document, so \<open>[]\<close> is the document itself and two
  elements that look alike are still two references. The host's primitives
  (\<^verbatim>\<open>parentNode\<close>, \<^verbatim>\<open>getAttribute\<close>, \<^verbatim>\<open>id\<close>,
  \<^verbatim>\<open>className\<close>, \<^verbatim>\<open>getElementsByTagName\<close>,
  \<^verbatim>\<open>document.getElementById\<close>) read this tree.
\<close>

datatype node = Node (tagName: string) (attributes: "(string \<times> string) list") (children: "node list")

type_synonym ref = "nat list"

fun node_at :: "node \<Rightarrow> ref \<Rightarrow> node option" where
  "node_at n [] = Some n"
| "node_at n (i # is) = (if i < length (children n) then node_at (children n ! i) is else None)"

text \<open>The positions below a node in document order, relative to it: the node itself first,
  then each child's subtree.\<close>

fun paths :: "node \<Rightarrow> ref list" and paths_from :: "nat \<Rightarrow> node list \<Rightarrow> ref list" where
  "paths (Node t a kids) = [] # paths_from 0 kids"
| "paths_from i [] = []"
| "paths_from i (k # ks) = map ((#) i) (paths k) @ paths_from (Suc i) ks"

text \<open>The elements below a node of the page (the node itself is not one of them).\<close>

definition descendants :: "node \<Rightarrow> ref \<Rightarrow> ref list" where
  "descendants doc this =
     (case node_at doc this of
        None \<Rightarrow> []
      | Some n \<Rightarrow> map ((@) this) (paths_from 0 (children n)))"

definition parentNode :: "ref \<Rightarrow> ref option" where
  "parentNode el = (if el = [] then None else Some (butlast el))"

definition getAttribute :: "node \<Rightarrow> ref \<Rightarrow> string \<Rightarrow> string option" where
  "getAttribute doc el name =
     (case node_at doc el of None \<Rightarrow> None | Some n \<Rightarrow> map_of (attributes n) name)"

text \<open>The properties \<^verbatim>\<open>id\<close> and \<^verbatim>\<open>className\<close> reflect the attributes and
  are the empty string without them.\<close>

definition elem_id :: "node \<Rightarrow> ref \<Rightarrow> string" where
  "elem_id doc el = (case getAttribute doc el ''id'' of None \<Rightarrow> [] | Some v \<Rightarrow> v)"

definition className :: "node \<Rightarrow> ref \<Rightarrow> string" where
  "className doc el = (case getAttribute doc el ''class'' of None \<Rightarrow> [] | Some v \<Rightarrow> v)"

text \<open>\<^verbatim>\<open>el.getElementsByTagName(t)\<close>: the descendants with the tag name, or all of them
  for \<^verbatim>\<open>*\<close>, in document order. The page holds the names of tags and attributes as the
  host has normalised them, and a name is looked up as it is written: that the host of an
  HTML page also finds a name written in another case is not modelled.\<close>

definition has_tag :: "node \<Rightarrow> string \<Rightarrow> ref \<Rightarrow> bool" where
  "has_tag doc t el =
     (t = ''*'' \<or> (case node_at doc el of None \<Rightarrow> False | Some n \<Rightarrow> tagName n = t))"

definition getElementsByTagName :: "node \<Rightarrow> ref \<Rightarrow> string \<Rightarrow> ref list" where
  "getElementsByTagName doc this t = filter (has_tag doc t) (descendants doc this)"

text \<open>\<^verbatim>\<open>document.getElementById(id)\<close>: the first element of the page with the id, or
  \<^verbatim>\<open>null\<close>.\<close>

definition document_getElementById :: "node \<Rightarrow> string \<Rightarrow> ref option" where
  "document_getElementById doc i =
     (if i = [] then None
      else find (\<lambda>el. getAttribute doc el ''id'' = Some i) (descendants doc []))"

text \<open>
  Modelled from the spec: \<^verbatim>\<open>getTag\<close> of \<^verbatim>\<open>Element.js\<close>, which is not in this
  file, called through \<^verbatim>\<open>$Element\<close>: "the found element's tag". Tag names are compared
  as the page holds them.
\<close>

definition getTag :: "node \<Rightarrow> ref \<Rightarrow> string" where
  "getTag doc el = (case node_at doc el of None \<Rightarrow> [] | Some n \<Rightarrow> tagName n)"

text \<open>The host's \<^verbatim>\<open>split\<close> on a one-character separator.\<close>

fun split :: "char \<Rightarrow> string \<Rightarrow> string list" where
  "split c [] = [[]]"
| "split c (x # xs) =
     (if x = c then [] # split c xs
      else case split c xs of [] \<Rightarrow> [[x]] | w # ws \<Rightarrow> (x # w) # ws)"

text \<open>
  Modelled from the spec: \<^verbatim>\<open>hasClass\<close> of \<^verbatim>\<open>Element.js\<close>, which is not in this
  file, called through \<^verbatim>\<open>$Element\<close>: "elements carrying that class (exact token match
  among space-separated class list)".
\<close>

definition hasClass :: "node \<Rightarrow> ref \<Rightarrow> string \<Rightarrow> bool" where
  "hasClass doc el cls = (cls \<in> set (split CHR '' '' (className doc el)))"

subsection \<open>Truthiness and strings of optional values\<close>

text \<open>A value that is a string or \<^verbatim>\<open>undefined\<close>: it is truthy when it is a string that
  is not empty, and as a string \<^verbatim>\<open>undefined\<close> reads "undefined".\<close>

definition truthy :: "string option \<Rightarrow> bool" where
  "truthy v = (case v of None \<Rightarrow> False | Some s \<Rightarrow> s \<noteq> [])"

definition to_string :: "string option \<Rightarrow> string" where
  "to_string v = (case v of None \<Rightarrow> ''undefined'' | Some s \<Rightarrow> s)"

subsection \<open>Arrays\<close>

text \<open>
  The filters of \<^verbatim>\<open>Elements\<close> build arrays and push to them, so arrays live in a
  store: an array is an address, the store holds the sequence of each allocated array, and
  \<^verbatim>\<open>[]\<close> allocates the next address.
\<close>

type_synonym addr = nat
type_synonym store = "ref list list"


definition contents :: "store \<Rightarrow> addr \<Rightarrow> ref list" where
  "contents h a = (if a < length h then h ! a else [])"

definition new_array :: "store \<Rightarrow> store \<times> addr" where
  "new_array h = (h @ [[]], length h)"

definition push :: "store \<Rightarrow> addr \<Rightarrow> ref \<Rightarrow> store" where
  "push h a x = h[a := contents h a @ [x]]"

text \<open>
  Modelled from the spec: \<^verbatim>\<open>Array.extend\<close> and \<^verbatim>\<open>Array.each\<close> of
  \<^verbatim>\<open>Array.js\<close>, which is not in this file. \<^verbatim>\<open>extend\<close> appends the elements of
  another array ("concatenated"), and \<^verbatim>\<open>each\<close> calls its function on the elements in
  order ("for each element in the set"): the loops below run over the receiver's sequence.
\<close>

definition extend_array :: "store \<Rightarrow> addr \<Rightarrow> ref list \<Rightarrow> store" where
  "extend_array h a xs = h[a := contents h a @ xs]"

subsection \<open>The filters of Elements\<close>

definition filterById :: "node \<Rightarrow> string \<Rightarrow> addr \<Rightarrow> store \<Rightarrow> store \<times> addr" where
  "filterById doc i this h =
     (let (h1, found) = new_array h;
          h2 = fold (\<lambda>el h'. if elem_id doc el = i then push h' found el else h')
                 (contents h1 this) h1
      in (h2, found))"

definition filterByClassName :: "node \<Rightarrow> string \<Rightarrow> addr \<Rightarrow> store \<Rightarrow> store \<times> addr" where
  "filterByClassName doc cls this h =
     (let (h1, found) = new_array h;
          h2 = fold (\<lambda>el h'. if hasClass doc el cls then push h' found el else h')
                 (contents h1 this) h1
      in (h2, found))"

definition filterByTagName :: "node \<Rightarrow> string \<Rightarrow> addr \<Rightarrow> store \<Rightarrow> store \<times> addr" where
  "filterByTagName doc t this h =
     (let (h1, found) = new_array h;
          h2 = fold (\<lambda>el h'. extend_array h' found (getElementsByTagName doc el t))
                 (contents h1 this) h1
      in (h2, found))"

text \<open>\<^verbatim>\<open>att.test(p)\<close> as a condition.\<close>

definition pattern_test :: "string \<Rightarrow> string \<Rightarrow> error + bool" where
  "pattern_test att p = (case RegExp p of Inl e \<Rightarrow> Inl e | Inr r \<Rightarrow> Inr (test att r \<noteq> None))"

text \<open>The \<^verbatim>\<open>switch\<close> of \<^verbatim>\<open>filterByAttribute\<close>: whether the element is pushed.
  The host compiles \<^verbatim>\<open>undefined\<close> to the empty pattern, and no string equals
  \<^verbatim>\<open>undefined\<close>.\<close>

definition attribute_switch :: "string \<Rightarrow> string \<Rightarrow> string option \<Rightarrow> error + bool" where
  "attribute_switch operator att value =
     (if operator = ''*='' then pattern_test att (case value of None \<Rightarrow> [] | Some v \<Rightarrow> v)
      else if operator = ''='' then Inr (value = Some att)
      else if operator = ''^='' then pattern_test att (CHR ''^'' # to_string value)
      else if operator = ''$='' then pattern_test att (to_string value @ ''$'')
      else Inr False)"

text \<open>The function that \<^verbatim>\<open>filterByAttribute\<close> calls on each element.\<close>

definition attribute_passes ::
  "node \<Rightarrow> string \<Rightarrow> string option \<Rightarrow> string option \<Rightarrow> ref \<Rightarrow> error + bool" where
  "attribute_passes doc name value operator el =
     (case getAttribute doc el name of
        None \<Rightarrow> Inr False
      | Some att \<Rightarrow>
          if att = [] then Inr False
          else if \<not> truthy operator then Inr True
          else attribute_switch (to_string operator) att value)"

text \<open>The loop of \<^verbatim>\<open>filterByAttribute\<close>; an exception of the host ends it.\<close>

fun each_attribute ::
  "node \<Rightarrow> string \<Rightarrow> string option \<Rightarrow> string option \<Rightarrow> addr \<Rightarrow> ref list \<Rightarrow> store
     \<Rightarrow> store \<times> error option" where
  "each_attribute doc name value operator found [] h = (h, None)"
| "each_attribute doc name value operator found (el # els) h =
     (case attribute_passes doc name value operator el of
        Inl e \<Rightarrow> (h, Some e)
      | Inr pass \<Rightarrow>
          each_attribute doc name value operator found els (if pass then push h found el else h))"

definition filterByAttribute ::
  "node \<Rightarrow> string \<Rightarrow> string option \<Rightarrow> string option \<Rightarrow> addr \<Rightarrow> store
     \<Rightarrow> store \<times> (error + addr)" where
  "filterByAttribute doc name value operator this h =
     (let (h1, found) = new_array h;
          (h2, e) = each_attribute doc name value operator found (contents h1 this) h1
      in (h2, case e of None \<Rightarrow> Inr found | Some err \<Rightarrow> Inl err))"

text \<open>
  \<^verbatim>\<open>$Elements(filters).filterById(id)\<close> and its like: the sequence wrapped as a result
  set, the filter called on it, and the returned array read.
\<close>

definition filtered :: "(addr \<Rightarrow> store \<Rightarrow> store \<times> addr) \<Rightarrow> ref list \<Rightarrow> ref list" where
  "filtered f els = (let (h, found) = f 0 [els] in contents h found)"

definition filtered_or_error ::
  "(addr \<Rightarrow> store \<Rightarrow> store \<times> (error + addr)) \<Rightarrow> ref list \<Rightarrow> error + ref list" where
  "filtered_or_error f els =
     (let (h, r) = f 0 [els] in case r of Inl e \<Rightarrow> Inl e | Inr found \<Rightarrow> Inr (contents h found))"

subsection \<open>Selectors\<close>

text \<open>
  Modelled from the spec: the first step of \<^verbatim>\<open>String.clean\<close> of \<^verbatim>\<open>String.js\<close>,
  which is not in this file ("collapse whitespace"): every run of whitespace becomes one
  space.
\<close>

fun collapse :: "string \<Rightarrow> string" where
  "collapse [] = []"
| "collapse [x] = [if is_space x then CHR '' '' else x]"
| "collapse (x # y # zs) =
     (if is_space x \<and> is_space y then collapse (y # zs)
      else (if is_space x then CHR '' '' else x) # collapse (y # zs))"

text \<open>
  Modelled from the spec: the second step of \<^verbatim>\<open>String.clean\<close> ("trim"): the whitespace
  at the two ends is dropped.
\<close>

definition trim :: "string \<Rightarrow> string" where
  "trim s = rev (dropWhile is_space (rev (dropWhile is_space s)))"

text \<open>
  Modelled from the spec: \<^verbatim>\<open>String.clean\<close> of \<^verbatim>\<open>String.js\<close>, which is not in this
  file ("trim/collapse whitespace").
\<close>

definition clean :: "string \<Rightarrow> string" where
  "clean s = trim (collapse s)"

text \<open>The parts of one token of a selector (\<^verbatim>\<open>param\<close> in the source).\<close>

record param =
  param_tag :: string
  param_id :: "string option"
  param_class :: "string option"
  param_attribute :: "string option"
  param_operator :: "string option"
  param_value :: "string option"

text \<open>
  Modelled from the spec: \<^verbatim>\<open>Array.remove\<close> and \<^verbatim>\<open>Array.associate\<close> of
  \<^verbatim>\<open>Array.js\<close>, which is not in this file. After the tag has its default
  \<^verbatim>\<open>*\<close>, the whole match is dropped from the array of the match and the six groups
  are named ("tag (default *), id, class, attribute, operator, value").
\<close>

definition associate :: "captures \<Rightarrow> param" where
  "associate bits =
     \<lparr> param_tag = (if \<not> truthy (bits 1) then ''*'' else to_string (bits 1)),
       param_id = bits 2,
       param_class = bits 3,
       param_attribute = bits 4,
       param_operator = bits 5,
       param_value = bits 6 \<rparr>"

definition selector_match :: "string \<Rightarrow> param option" where
  "selector_match sel = map_option associate (test sel selector_re)"

text \<open>\<^verbatim>\<open>Element.getElementById\<close>: the walk up from the element found in the page ends
  at the receiver, or at \<^verbatim>\<open>null\<close> above the document. The document keeps the host's
  \<^verbatim>\<open>getElementById\<close>; the walk from an element of the page always reaches the
  document, so for the document the two are the same (\<open>getElementById_document\<close> below).\<close>

function climb :: "ref option \<Rightarrow> ref \<Rightarrow> bool" where
  "climb parent this =
     (if parent = Some this then True
      else case parent of None \<Rightarrow> False | Some p \<Rightarrow> climb (parentNode p) this)"
  by pat_completeness auto
termination
  by (relation "measure (\<lambda>(parent, this). case parent of None \<Rightarrow> 0 | Some p \<Rightarrow> Suc (length p))")
     (auto simp: parentNode_def split: if_splits)

definition getElementById :: "node \<Rightarrow> ref \<Rightarrow> string \<Rightarrow> ref option" where
  "getElementById doc this i =
     (case document_getElementById doc i of
        None \<Rightarrow> None
      | Some el \<Rightarrow> if climb (parentNode el) this then Some el else None)"

text \<open>The two last lines of the function that \<^verbatim>\<open>getElements\<close> calls on each token:
  the class and the attribute of the token.\<close>

definition narrow :: "node \<Rightarrow> param \<Rightarrow> ref list \<Rightarrow> error + ref list" where
  "narrow doc param filters =
     (let filters' =
            (if truthy (param_class param)
             then filtered (filterByClassName doc (to_string (param_class param))) filters
             else filters)
      in if truthy (param_attribute param)
         then filtered_or_error
                (filterByAttribute doc (to_string (param_attribute param)) (param_value param)
                   (param_operator param)) filters'
         else Inr filters')"

text \<open>The function that \<^verbatim>\<open>getElements\<close> calls on each token \<open>sel\<close> with its index
  \<open>i\<close>; the result is the new value of \<^verbatim>\<open>filters\<close>.\<close>

definition select :: "node \<Rightarrow> ref \<Rightarrow> string \<Rightarrow> nat \<Rightarrow> ref list \<Rightarrow> error + ref list" where
  "select doc this sel i filters =
     (case selector_match sel of
        None \<Rightarrow> Inr filters
      | Some param \<Rightarrow>
          if i = 0 then
            (if truthy (param_id param) then
               (case getElementById doc this (to_string (param_id param)) of
                  None \<Rightarrow> Inr filters
                | Some el \<Rightarrow>
                    if param_tag param \<noteq> ''*'' \<and> getTag doc el \<noteq> param_tag param
                    then Inr filters
                    else narrow doc param [el])
             else narrow doc param (getElementsByTagName doc this (param_tag param)))
          else
            (let filters1 = filtered (filterByTagName doc (param_tag param)) filters;
                 filters2 =
                   (if truthy (param_id param)
                    then filtered (filterById doc (to_string (param_id param))) filters1
                    else filters1)
             in narrow doc param filters2))"

fun each_selector :: "node \<Rightarrow> ref \<Rightarrow> string list \<Rightarrow> nat \<Rightarrow> ref list \<Rightarrow> error + ref list" where
  "each_selector doc this [] i filters = Inr filters"
| "each_selector doc this (sel # sels) i filters =
     (case select doc this sel i filters of
        Inl e \<Rightarrow> Inl e
      | Inr filters' \<Rightarrow> each_selector doc this sels (Suc i) filters')"

text \<open>\<^verbatim>\<open>getElements\<close>; extending each element of the result with \<^verbatim>\<open>$\<close> leaves the
  sequence as it is.\<close>

definition getElements :: "node \<Rightarrow> ref \<Rightarrow> string \<Rightarrow> error + ref list" where
  "getElements doc this selector =
     each_selector doc this (split CHR '' '' (clean selector)) 0 []"

fun each_compound :: "node \<Rightarrow> ref \<Rightarrow> string list \<Rightarrow> ref list \<Rightarrow> error + ref list" where
  "each_compound doc this [] els = Inr els"
| "each_compound doc this (sel # sels) els =
     (case getElements doc this sel of
        Inl e \<Rightarrow> Inl e
      | Inr found \<Rightarrow> each_compound doc this sels (els @ found))"

definition getElementsBySelector :: "node \<Rightarrow> ref \<Rightarrow> string \<Rightarrow> error + ref list" where
  "getElementsBySelector doc this selector =
     each_compound doc this (split CHR '','' selector) []"

text \<open>The host's \<^verbatim>\<open>a[i]\<close>, \<^verbatim>\<open>undefined\<close> outside the array.\<close>

definition index :: "'a list \<Rightarrow> nat \<Rightarrow> 'a option" where
  "index a i = (if i < length a then Some (a ! i) else None)"

definition getElement :: "node \<Rightarrow> ref \<Rightarrow> string \<Rightarrow> error + ref option" where
  "getElement doc this selector =
     (case getElementsBySelector doc this selector of
        Inl e \<Rightarrow> Inl e
      | Inr els \<Rightarrow> Inr (index els 0))"

text \<open>
  Modelled from the spec: \<^verbatim>\<open>$\<close> of \<^verbatim>\<open>Moo.js\<close>, which is not in this file. The
  second argument of \<^verbatim>\<open>$E\<close> and \<^verbatim>\<open>$ES\<close> is the element it yields, if any
  ("scope ?? document").
\<close>

definition scope_of :: "ref option \<Rightarrow> ref" where
  "scope_of filter_el = (case filter_el of None \<Rightarrow> [] | Some el \<Rightarrow> el)"

definition dollar_E :: "node \<Rightarrow> string \<Rightarrow> ref option \<Rightarrow> error + ref option" where
  "dollar_E doc selector filter_el = getElement doc (scope_of filter_el) selector"

definition dollar_ES :: "node \<Rightarrow> string \<Rightarrow> ref option \<Rightarrow> error + ref list" where
  "dollar_ES doc selector filter_el = getElementsBySelector doc (scope_of filter_el) selector"

subsection \<open>action\<close>

text \<open>
  What \<^verbatim>\<open>action\<close> does to the page: it sets properties of elements, registers
  listeners and calls the \<^verbatim>\<open>initialize\<close> function. A function is known by its
  identity only; a call is recorded with the element it is bound to.
\<close>

type_synonym handler = nat

record effects =
  properties :: "ref \<Rightarrow> string \<rightharpoonup> handler"
  listeners :: "ref \<Rightarrow> (string \<times> handler) list"
  calls :: "(handler \<times> ref) list"

definition set_property :: "ref \<Rightarrow> string \<Rightarrow> handler \<Rightarrow> effects \<Rightarrow> effects" where
  "set_property el key fn s = s\<lparr>properties := (properties s)(el := (properties s el)(key \<mapsto> fn))\<rparr>"

definition apply_to :: "handler \<Rightarrow> ref \<Rightarrow> effects \<Rightarrow> effects" where
  "apply_to fn el s = s\<lparr>calls := calls s @ [(fn, el)]\<rparr>"

text \<open>
  Modelled from the spec: \<^verbatim>\<open>Element.addEvent\<close> of \<^verbatim>\<open>Element.js\<close>, which is not
  in this file ("register it as an additional event listener ... accumulates, does not
  overwrite").
\<close>

definition addEvent :: "ref \<Rightarrow> string \<Rightarrow> handler \<Rightarrow> effects \<Rightarrow> effects" where
  "addEvent el type fn s = s\<lparr>listeners := (listeners s)(el := listeners s el @ [(type, fn)])\<rparr>"

text \<open>The body of the loop over the keys of \<^verbatim>\<open>actions\<close>.\<close>

definition bind_key :: "ref \<Rightarrow> string \<times> handler \<Rightarrow> effects \<Rightarrow> effects" where
  "bind_key el kv s =
     (let key = fst kv; fn = snd kv
      in if test key on_re \<noteq> None then set_property el key fn s
         else (case test key event_re of
                 None \<Rightarrow> s
               | Some evt \<Rightarrow> addEvent el (to_string (evt 1)) fn s))"

text \<open>The function that \<^verbatim>\<open>action\<close> calls on each element; \<^verbatim>\<open>actions\<close> is the
  object as the list of its keys and values in the order of the loop.\<close>

definition action_on :: "(string \<times> handler) list \<Rightarrow> ref \<Rightarrow> effects \<Rightarrow> effects" where
  "action_on actions el s =
     (let s1 = (case map_of actions ''initialize'' of None \<Rightarrow> s | Some fn \<Rightarrow> apply_to fn el s)
      in fold (bind_key el) actions s1)"

definition action :: "(string \<times> handler) list \<Rightarrow> ref list \<Rightarrow> effects \<Rightarrow> effects" where
  "action actions this s = fold (action_on actions) this s"

subsection \<open>Notions for the statements and proofs\<close>

text \<open>The groups of a pattern.\<close>

fun groups :: "regex \<Rightarrow> nat set" where
  "groups (Grp i r) = insert i (groups r)"
| "groups (Seq r1 r2) = groups r1 \<union> groups r2"
| "groups (Alt r1 r2) = groups r1 \<union> groups r2"
| "groups (Opt r) = groups r"
| "groups r = {}"

text \<open>
  The attribute predicate in the words of the spec: with no operator every value passes;
  \<^verbatim>\<open>=\<close> is string equality, \<^verbatim>\<open>*=\<close> is "contains", \<^verbatim>\<open>^=\<close> is "starts
  with" and \<^verbatim>\<open>$=\<close> is "ends with".
\<close>

definition spec_attribute_table :: "string option \<Rightarrow> string \<Rightarrow> string \<Rightarrow> bool" where
  "spec_attribute_table operator att v =
     (case operator of
        None \<Rightarrow> True
      | Some op \<Rightarrow>
          if op = ''='' then att = v
          else if op = ''*='' then sublist v att
          else if op = ''^='' then prefix v att
          else if op = ''$='' then suffix v att
          else False)"

text \<open>
  What the keys of an object of actions come to: the keys that are set as properties (those
  that match the first pattern), and the listeners that are registered, in the order of the
  keys (by those that match the second pattern and not the first).
\<close>

definition assigned :: "(string \<times> handler) list \<Rightarrow> (string \<times> handler) list" where
  "assigned actions = [kv \<leftarrow> actions. test (fst kv) on_re \<noteq> None]"

definition registered :: "(string \<times> handler) list \<Rightarrow> (string \<times> handler) list" where
  "registered actions =
     concat (map (\<lambda>kv. if test (fst kv) on_re \<noteq> None then []
                        else (case test (fst kv) event_re of
                                None \<Rightarrow> []
                              | Some evt \<Rightarrow> [(to_string (evt 1), snd kv)])) actions)"

text \<open>A page on which nothing has been set, registered or called.\<close>

definition no_effects :: effects where
  "no_effects = \<lparr>properties = (\<lambda>el. Map.empty), listeners = (\<lambda>el. []), calls = []\<rparr>"

text \<open>
  A page for the examples:
  \<^verbatim>\<open><html><div id="a"><p class="x"></p><p></p></div><a href="http://mootools.net"></a>
  <a href="ftp://mad4milk.net"></a><a name="top"></a><input disabled="" name=""></html>\<close>
\<close>

definition example_page :: node where
  "example_page =
     Node ''#document'' []
       [Node ''html'' []
          [Node ''div'' [(''id'', ''a'')]
             [Node ''p'' [(''class'', ''x'')] [], Node ''p'' [] []],
           Node ''a'' [(''href'', ''http://mootools.net'')] [],
           Node ''a'' [(''href'', ''ftp://mad4milk.net'')] [],
           Node ''a'' [(''name'', ''top'')] [],
           Node ''input'' [(''disabled'', []), (''name'', [])] []]]"

text \<open>
  A page in which two elements have the same id:
  \<^verbatim>\<open><html><div id="b"></div><ul><li id="b"></li></ul></html>\<close>
\<close>

definition twin_id_page :: node where
  "twin_id_page =
     Node ''#document'' []
       [Node ''html'' []
          [Node ''div'' [(''id'', ''b'')] [],
           Node ''ul'' [] [Node ''li'' [(''id'', ''b'')] []]]]"

section \<open>Properties\<close>

subsection \<open>Matching literal patterns\<close>

lemma ms_seqs_Cons: "ms (seqs (r # rs)) st = concat (map (ms (seqs rs)) (ms r st))"
proof -
  have "ms Eps = (\<lambda>st. [st])" by (rule ext) simp
  then show ?thesis by (cases rs) (simp_all add: concat_map_singleton)
qed

lemma search_found_iff:
  "search r b s \<noteq> None \<longleftrightarrow>
     ms r (b, s, Map.empty) \<noteq> [] \<or> (\<exists>ss. strict_suffix ss s \<and> ms r (False, ss, Map.empty) \<noteq> [])"
proof (induction s arbitrary: b)
  case Nil
  show ?case
    by (cases "ms r (b, [], Map.empty)") (auto simp: strict_suffix_def suffix_def)
next
  case (Cons x xs)
  have ss: "strict_suffix ss (x # xs) \<longleftrightarrow> suffix ss xs" for ss
    by (auto simp: strict_suffix_def suffix_Cons dest: suffix_length_le)
  have sx: "suffix ss xs \<longleftrightarrow> ss = xs \<or> strict_suffix ss xs" for ss
    by (auto simp: strict_suffix_def)
  show ?case
  proof (cases "ms r (b, x # xs, Map.empty)")
    case Nil
    then have "search r b (x # xs) = search r False xs" by simp
    then show ?thesis using Cons.IH[of False] Nil by (auto simp: ss sx)
  next
    case (Cons m rest)
    then show ?thesis by (cases m) (auto)
  qed
qed

lemma ms_lits_then:
  "ms (seqs (map Chr v @ rs)) (b, s, g) =
     (if prefix v s then ms (seqs rs) (b \<and> v = [], drop (length v) s, g) else [])"
proof (induction v arbitrary: b s)
  case Nil
  then show ?case by simp
next
  case (Cons c v)
  show ?case
    by (cases s) (simp_all add: ms_seqs_Cons Cons.IH)
qed

lemma ms_lits: "ms (lits v) (b, s, g) = (if prefix v s then [(b \<and> v = [], drop (length v) s, g)] else [])"
  using ms_lits_then[of v "[]" b s g] by (simp add: lits_def)

lemma test_lits: "test att (lits v) \<noteq> None \<longleftrightarrow> sublist v att"
proof -
  have "test att (lits v) \<noteq> None \<longleftrightarrow> (\<exists>ss. suffix ss att \<and> prefix v ss)"
    unfolding test_def search_found_iff by (auto simp: ms_lits strict_suffix_def)
  then show ?thesis by (simp add: sublist_altdef')
qed

lemma test_bol_lits: "test att (seqs (Bol # map Chr v)) \<noteq> None \<longleftrightarrow> prefix v att"
  unfolding test_def search_found_iff
  using ms_lits_then[of v "[]"] by (auto simp: ms_seqs_Cons)

lemma test_lits_eol: "test att (seqs (map Chr v @ [Eol])) \<noteq> None \<longleftrightarrow> suffix v att"
proof -
  have m: "ms (seqs (map Chr v @ [Eol])) (b, s, g) \<noteq> [] \<longleftrightarrow> s = v" for b s g
    using ms_lits_then[of v "[Eol]" b s g] by (auto simp: prefix_def)
  show ?thesis
    unfolding test_def search_found_iff m by (auto simp: strict_suffix_def)
qed

lemma word_not_special: "is_word c \<Longrightarrow> \<not> is_special c \<and> c \<noteq> CHR ''^'' \<and> c \<noteq> CHR ''$''"
  by (auto simp: is_word_def is_special_def)

lemma atoms_literal:
  "\<forall>c\<in>set v. \<not> is_special c \<and> c \<noteq> CHR ''^'' \<and> c \<noteq> CHR ''$'' \<Longrightarrow> atoms (v @ w) = (case atoms w of Inl e \<Rightarrow> Inl e | Inr rs \<Rightarrow> Inr (map Chr v @ rs))"
  by (induction v) (auto split: sum.splits)

lemma RegExp_literal:
  assumes "\<forall>c\<in>set v. is_word c"
  shows "RegExp v = Inr (lits v)"
    and "RegExp (CHR ''^'' # v) = Inr (seqs (Bol # map Chr v))"
    and "RegExp (v @ ''$'') = Inr (seqs (map Chr v @ [Eol]))"
proof -
  have l: "\<forall>c\<in>set v. \<not> is_special c \<and> c \<noteq> CHR ''^'' \<and> c \<noteq> CHR ''$''"
    using assms word_not_special by blast
  show "RegExp v = Inr (lits v)"
    using atoms_literal[OF l, of "[]"] by (simp add: RegExp_def lits_def)
  show "RegExp (CHR ''^'' # v) = Inr (seqs (Bol # map Chr v))"
    using atoms_literal[OF l, of "[]"] by (simp add: RegExp_def is_special_def)
  show "RegExp (v @ ''$'') = Inr (seqs (map Chr v @ [Eol]))"
    using atoms_literal[OF l, of "''$''"] by (simp add: RegExp_def is_special_def)
qed

lemma pattern_test_literal:
  assumes "\<forall>c\<in>set v. is_word c"
  shows "pattern_test att v = Inr (sublist v att)"
    and "pattern_test att (CHR ''^'' # v) = Inr (prefix v att)"
    and "pattern_test att (v @ ''$'') = Inr (suffix v att)"
  using test_lits[of att v] test_bol_lits[of att v] test_lits_eol[of att v]
  by (simp_all add: pattern_test_def RegExp_literal[OF assms])

lemma attribute_switch_table:
  assumes "\<forall>c\<in>set v. is_word c"
  shows "attribute_switch ''='' att (Some v) = Inr (spec_attribute_table (Some ''='') att v)"
    and "attribute_switch ''*='' att (Some v) = Inr (spec_attribute_table (Some ''*='') att v)"
    and "attribute_switch ''^='' att (Some v) = Inr (spec_attribute_table (Some ''^='') att v)"
    and "attribute_switch ''$='' att (Some v) = Inr (spec_attribute_table (Some ''$='') att v)"
  by (auto simp add: attribute_switch_def spec_attribute_table_def to_string_def
      pattern_test_literal[OF assms])

subsection \<open>The groups of the selector pattern\<close>

lemma ms_frame: "(b', s', g') \<in> set (ms r (b, s, g)) \<Longrightarrow> i \<notin> groups r \<Longrightarrow> g' i = g i"
proof (induction r arbitrary: b s g b' s' g')
  case Eps
  then show ?case by simp
next
  case (Chr c)
  then show ?case by (cases s) (auto split: if_splits)
next
  case (Cls P)
  then show ?case by (cases s) (auto split: if_splits)
next
  case Bol
  then show ?case by (auto split: if_splits)
next
  case Eol
  then show ?case by (auto split: if_splits)
next
  case (Seq r1 r2)
  from Seq.prems(1) obtain m where m: "m \<in> set (ms r1 (b, s, g))" "(b', s', g') \<in> set (ms r2 m)"
    by auto
  obtain b1 s1 g1 where m1: "m = (b1, s1, g1)" by (cases m)
  have "g1 i = g i" using Seq.IH(1)[of b1 s1 g1 b s g] m(1) m1 Seq.prems(2) by simp
  moreover have "g' i = g1 i" using Seq.IH(2)[of b' s' g' b1 s1 g1] m(2) m1 Seq.prems(2) by simp
  ultimately show ?case by simp
next
  case (Alt r1 r2)
  then show ?case by auto
next
  case (Opt r)
  then show ?case by auto
next
  case (Star P)
  then show ?case by auto
next
  case (Plus P)
  then show ?case by (cases s) (auto split: if_splits)
next
  case (Grp j r)
  from Grp.prems(1) obtain g0 where "(b', s', g0) \<in> set (ms r (b, s, g))"
    "g' = g0(j \<mapsto> take (length s - length s') s)"
    by auto
  then show ?case using Grp.IH[of b' s' g0 b s g] Grp.prems(2) by simp
qed

lemma star_mem: "s' \<in> set (star P s) \<Longrightarrow> \<exists>w. s = w @ s' \<and> (\<forall>c\<in>set w. P c)"
proof (induction s)
  case Nil
  then show ?case by simp
next
  case (Cons x xs)
  show ?case
  proof (cases "P x \<and> s' \<in> set (star P xs)")
    case True
    then obtain w where "xs = w @ s'" "\<forall>c\<in>set w. P c" using Cons.IH by blast
    then have "x # xs = (x # w) @ s' \<and> (\<forall>c\<in>set (x # w). P c)" using True by simp
    then show ?thesis by blast
  next
    case False
    then have "s' = x # xs" using Cons.prems by (auto split: if_splits)
    then show ?thesis by simp
  qed
qed

lemma ms_suffix: "(b', s', g') \<in> set (ms r (b, s, g)) \<Longrightarrow> suffix s' s"
proof (induction r arbitrary: b s g b' s' g')
  case Eps
  then show ?case by simp
next
  case (Chr c)
  then show ?case by (cases s) (auto split: if_splits simp: suffix_Cons)
next
  case (Cls P)
  then show ?case by (cases s) (auto split: if_splits simp: suffix_Cons)
next
  case Bol
  then show ?case by (auto split: if_splits)
next
  case Eol
  then show ?case by (auto split: if_splits)
next
  case (Seq r1 r2)
  from Seq.prems(1) obtain m where m: "m \<in> set (ms r1 (b, s, g))" "(b', s', g') \<in> set (ms r2 m)"
    by auto
  obtain b1 s1 g1 where m1: "m = (b1, s1, g1)" by (cases m)
  have "suffix s1 s" using Seq.IH(1)[of b1 s1 g1 b s g] m(1) m1 by simp
  moreover have "suffix s' s1" using Seq.IH(2)[of b' s' g' b1 s1 g1] m(2) m1 by simp
  ultimately show ?case using suffix_order.trans by blast
next
  case (Alt r1 r2)
  then show ?case by auto
next
  case (Opt r)
  then show ?case by auto
next
  case (Star P)
  then have "s' \<in> set (star P s)" by auto
  then show ?case using star_mem[of s' P s] by (auto simp: suffix_def)
next
  case (Plus P)
  then obtain x xs where "s = x # xs" "s' \<in> set (star P xs)"
    by (cases s) (auto split: if_splits)
  then show ?case using star_mem[of s' P xs] by (auto simp: suffix_def)
next
  case (Grp j r)
  from Grp.prems(1) obtain g0 where "(b', s', g0) \<in> set (ms r (b, s, g))"
    by auto
  then show ?case using Grp.IH by blast
qed

lemma ms_frame_state:
  "m' \<in> set (ms r m) \<Longrightarrow> i \<notin> groups r \<Longrightarrow> snd (snd m') i = snd (snd m) i"
  using ms_frame[of "fst m'" "fst (snd m')" "snd (snd m')" r "fst m" "fst (snd m)" "snd (snd m)" i]
  by simp

lemma ms_seqs_mem:
  "m' \<in> set (ms (seqs (r # rs)) m) \<longleftrightarrow> (\<exists>m1\<in>set (ms r m). m' \<in> set (ms (seqs rs) m1))"
  by (simp add: ms_seqs_Cons)

lemma ms_seqs_Nil_mem: "m' \<in> set (ms (seqs []) m) \<longleftrightarrow> m' = m"
  by auto

lemma search_Some_mem:
  "search r b s = Some g \<Longrightarrow> \<exists>b0 ss m. m \<in> set (ms (Grp 0 r) (b0, ss, Map.empty)) \<and> snd (snd m) = g"
proof (induction s arbitrary: b)
  case Nil
  show ?case
  proof (cases "ms (Grp 0 r) (b, [], Map.empty)")
    case Nil
    then show ?thesis using Nil.prems by (simp del: ms.simps)
  next
    case (Cons m rest)
    then have "snd (snd m) = g" using Nil.prems by (simp del: ms.simps split: prod.splits)
    moreover have "m \<in> set (ms (Grp 0 r) (b, [], Map.empty))" using Cons by (simp del: ms.simps)
    ultimately show ?thesis by blast
  qed
next
  case (Cons x xs)
  show ?case
  proof (cases "ms (Grp 0 r) (b, x # xs, Map.empty)")
    case Nil
    then have "search r False xs = Some g" using Cons.prems by (simp del: ms.simps)
    then show ?thesis using Cons.IH by blast
  next
    case (Cons m rest)
    then have "snd (snd m) = g" using Cons.prems by (simp del: ms.simps split: prod.splits)
    moreover have "m \<in> set (ms (Grp 0 r) (b, x # xs, Map.empty))" using Cons by (simp del: ms.simps)
    ultimately show ?thesis by blast
  qed
qed

lemma ms_Grp_mem:
  "m' \<in> set (ms (Grp i r) m) \<Longrightarrow>
     \<exists>m0\<in>set (ms r m). snd (snd m') = (snd (snd m0))(i \<mapsto>
        take (length (fst (snd m)) - length (fst (snd m0))) (fst (snd m)))"
  by (cases m) force

lemma operator_caps:
  assumes "m1 \<in> set (ms (Grp 5 (Seq (Opt (Cls is_opchar)) (Chr CHR ''=''))) m)"
  shows "snd (snd m1) 5 \<in> Some ` {''='', ''*='', ''^='', ''$=''}"
proof -
  obtain b s g where m: "m = (b, s, g)" by (cases m)
  show ?thesis
  proof (cases s)
    case Nil
    then show ?thesis using assms m by simp
  next
    case (Cons x xs)
    show ?thesis
    proof (cases xs)
      case Nil
      then show ?thesis using assms m Cons by (auto split: if_splits)
    next
      case (Cons y ys)
      then show ?thesis using assms m \<open>s = x # xs\<close>
        by (auto split: if_splits simp: is_opchar_def)
    qed
  qed
qed

lemma value_caps:
  assumes "m3 \<in> set (ms (Grp 6 (Star is_word)) m2)"
  shows "\<exists>v. snd (snd m3) 6 = Some v \<and> (\<forall>c\<in>set v. is_word c)"
proof -
  obtain b2 s2 g2 where e2: "m2 = (b2, s2, g2)" by (cases m2)
  from assms obtain s3 where s3: "s3 \<in> set (star is_word s2)"
    "snd (snd m3) = g2(6 \<mapsto> take (length s2 - length s3) s2)"
    unfolding e2 by auto
  obtain w where w: "s2 = w @ s3" "\<forall>c\<in>set w. is_word c" using star_mem[OF s3(1)] by blast
  have "snd (snd m3) 6 = Some w" using s3(2) w(1) by simp
  then show ?thesis using w(2) by blast
qed

lemma operator_value_caps:
  assumes "m' \<in> set (ms (seqs [Grp 5 (Seq (Opt (Cls is_opchar)) (Chr CHR ''='')),
              Opt (Cls is_quote), Grp 6 (Star is_word), Opt (Cls is_quote)]) m)"
  shows "snd (snd m') 5 \<in> Some ` {''='', ''*='', ''^='', ''$=''}
     \<and> (\<exists>v. snd (snd m') 6 = Some v \<and> (\<forall>c\<in>set v. is_word c))"
proof -
  from assms have "\<exists>m1\<in>set (ms (Grp 5 (Seq (Opt (Cls is_opchar)) (Chr CHR ''=''))) m).
     \<exists>m2\<in>set (ms (Opt (Cls is_quote)) m1). \<exists>m3\<in>set (ms (Grp 6 (Star is_word)) m2).
     \<exists>m4\<in>set (ms (Opt (Cls is_quote)) m3). m' = m4"
    by (simp only: ms_seqs_mem ms_seqs_Nil_mem)
  then obtain m1 m2 m3 where
    m1: "m1 \<in> set (ms (Grp 5 (Seq (Opt (Cls is_opchar)) (Chr CHR ''=''))) m)" and
    m2: "m2 \<in> set (ms (Opt (Cls is_quote)) m1)" and
    m3: "m3 \<in> set (ms (Grp 6 (Star is_word)) m2)" and
    m4: "m' \<in> set (ms (Opt (Cls is_quote)) m3)"
    by blast
  have "snd (snd m') 5 = snd (snd m1) 5"
    using ms_frame_state[OF m4, of 5] ms_frame_state[OF m3, of 5] ms_frame_state[OF m2, of 5]
    by simp
  moreover have "snd (snd m') 6 = snd (snd m3) 6"
    using ms_frame_state[OF m4, of 6] by simp
  ultimately show ?thesis using operator_caps[OF m1] value_caps[OF m3] by simp
qed

lemma selector_caps:
  assumes "test tok selector_re = Some g"
  shows "(g 5 = None \<and> g 6 = None)
     \<or> (g 5 \<in> Some ` {''='', ''*='', ''^='', ''$=''}
         \<and> (\<exists>v. g 6 = Some v \<and> (\<forall>c\<in>set v. is_word c)))"
proof -
  let ?A = "seqs [Grp 5 (Seq (Opt (Cls is_opchar)) (Chr CHR ''='')),
              Opt (Cls is_quote), Grp 6 (Star is_word), Opt (Cls is_quote)]"
  let ?B = "seqs [Chr CHR ''['', Opt (Cls is_quote), Grp 4 (Plus is_word), Opt (Cls is_quote),
              Opt ?A, Chr CHR '']'']"
  let ?G1 = "Grp 1 (Alt (Star is_word) (Chr CHR ''*''))"
  let ?O23 = "Opt (Alt (Seq (Chr CHR ''#'') (Grp 2 (Plus is_name)))
               (Seq (Chr CHR ''.'') (Grp 3 (Plus is_name))))"
  let ?P = "\<lambda>m. (snd (snd m) 5 = None \<and> snd (snd m) 6 = None)
     \<or> (snd (snd m) 5 \<in> Some ` {''='', ''*='', ''^='', ''$=''}
         \<and> (\<exists>v. snd (snd m) 6 = Some v \<and> (\<forall>c\<in>set v. is_word c)))"
  have re: "selector_re = seqs [Bol, ?G1, ?O23, Opt ?B, Eol]"
    by (simp add: selector_re_def)
  obtain b0 ss m where m: "m \<in> set (ms (Grp 0 selector_re) (b0, ss, Map.empty))" "snd (snd m) = g"
    using assms search_Some_mem unfolding test_def by blast
  obtain m0 where m0: "m0 \<in> set (ms selector_re (b0, ss, Map.empty))"
    "g 5 = snd (snd m0) 5" "g 6 = snd (snd m0) 6"
    using ms_Grp_mem[OF m(1)] m(2) by auto
  from m0(1) have "\<exists>m1\<in>set (ms Bol (b0, ss, Map.empty)). \<exists>m2\<in>set (ms ?G1 m1).
      \<exists>m3\<in>set (ms ?O23 m2). \<exists>m4\<in>set (ms (Opt ?B) m3). \<exists>m5\<in>set (ms Eol m4). m0 = m5"
    unfolding re by (simp only: ms_seqs_mem ms_seqs_Nil_mem)
  then obtain m1 m2 m3 m4 where
    m1: "m1 \<in> set (ms Bol (b0, ss, Map.empty))" and
    m2: "m2 \<in> set (ms ?G1 m1)" and
    m3: "m3 \<in> set (ms ?O23 m2)" and
    m4: "m4 \<in> set (ms (Opt ?B) m3)" and
    m5: "m0 \<in> set (ms Eol m4)"
    by blast
  have none3: "snd (snd m3) 5 = None \<and> snd (snd m3) 6 = None"
    using ms_frame_state[OF m1, of 5] ms_frame_state[OF m2, of 5] ms_frame_state[OF m3, of 5]
      ms_frame_state[OF m1, of 6] ms_frame_state[OF m2, of 6] ms_frame_state[OF m3, of 6]
    by simp
  have p4: "?P m4"
  proof (cases "m4 = m3")
    case True
    then show ?thesis using none3 by simp
  next
    case False
    then have "m4 \<in> set (ms ?B m3)" using m4 by (simp del: seqs.simps)
    then have "\<exists>n1\<in>set (ms (Chr CHR ''['') m3). \<exists>n2\<in>set (ms (Opt (Cls is_quote)) n1).
       \<exists>n3\<in>set (ms (Grp 4 (Plus is_word)) n2). \<exists>n4\<in>set (ms (Opt (Cls is_quote)) n3).
       \<exists>n5\<in>set (ms (Opt ?A) n4). \<exists>n6\<in>set (ms (Chr CHR '']'') n5). m4 = n6"
      by (simp only: ms_seqs_mem ms_seqs_Nil_mem)
    then obtain n1 n2 n3 n4 n5 where
      n1: "n1 \<in> set (ms (Chr CHR ''['') m3)" and
      n2: "n2 \<in> set (ms (Opt (Cls is_quote)) n1)" and
      n3: "n3 \<in> set (ms (Grp 4 (Plus is_word)) n2)" and
      n4: "n4 \<in> set (ms (Opt (Cls is_quote)) n3)" and
      n5: "n5 \<in> set (ms (Opt ?A) n4)" and
      n6: "m4 \<in> set (ms (Chr CHR '']'') n5)"
      by blast
    have none4: "snd (snd n4) 5 = None \<and> snd (snd n4) 6 = None"
      using none3 ms_frame_state[OF n1, of 5] ms_frame_state[OF n2, of 5]
        ms_frame_state[OF n3, of 5] ms_frame_state[OF n4, of 5]
        ms_frame_state[OF n1, of 6] ms_frame_state[OF n2, of 6]
        ms_frame_state[OF n3, of 6] ms_frame_state[OF n4, of 6]
      by simp
    have p5: "?P n5"
    proof (cases "n5 = n4")
      case True
      then show ?thesis using none4 by simp
    next
      case False
      then have "n5 \<in> set (ms ?A n4)" using n5 by (simp del: seqs.simps)
      then show ?thesis using operator_value_caps by blast
    qed
    then show ?thesis
      using ms_frame_state[OF n6, of 5] ms_frame_state[OF n6, of 6] by simp
  qed
  then have "?P m0"
    using ms_frame_state[OF m5, of 5] ms_frame_state[OF m5, of 6] by simp
  then show ?thesis using m0(2,3) by simp
qed

subsection \<open>The tree of the page\<close>

lemma node_at_append:
  "node_at n (a @ b) = (case node_at n a of None \<Rightarrow> None | Some m \<Rightarrow> node_at m b)"
  by (induction n a rule: node_at.induct) simp_all

lemma set_paths:
  "set (paths n) = {p. node_at n p \<noteq> None}"
  "set (paths_from i ks) = {p. \<exists>j q. p = (i + j) # q \<and> j < length ks \<and> node_at (ks ! j) q \<noteq> None}"
proof (induction n and i ks rule: paths_paths_from.induct)
  case (1 t a kids)
  show ?case
  proof (rule set_eqI)
    fix p
    show "p \<in> set (paths (Node t a kids)) \<longleftrightarrow> p \<in> {p. node_at (Node t a kids) p \<noteq> None}"
      using 1 by (cases p) auto
  qed
next
  case (2 i)
  then show ?case by simp
next
  case (3 i k ks)
  show ?case
  proof (rule set_eqI)
    fix p
    have "p \<in> set (paths_from i (k # ks)) \<longleftrightarrow>
       (\<exists>q. p = i # q \<and> node_at k q \<noteq> None)
       \<or> (\<exists>j q. p = (Suc i + j) # q \<and> j < length ks \<and> node_at (ks ! j) q \<noteq> None)"
      using 3 by auto
    also have "\<dots> \<longleftrightarrow> (\<exists>j q. p = (i + j) # q \<and> j < length (k # ks) \<and> node_at ((k # ks) ! j) q \<noteq> None)"
    proof
      assume "(\<exists>q. p = i # q \<and> node_at k q \<noteq> None)
       \<or> (\<exists>j q. p = (Suc i + j) # q \<and> j < length ks \<and> node_at (ks ! j) q \<noteq> None)"
      then show "\<exists>j q. p = (i + j) # q \<and> j < length (k # ks) \<and> node_at ((k # ks) ! j) q \<noteq> None"
      proof
        assume "\<exists>q. p = i # q \<and> node_at k q \<noteq> None"
        then obtain q where "p = (i + 0) # q \<and> 0 < length (k # ks) \<and> node_at ((k # ks) ! 0) q \<noteq> None"
          by auto
        then show ?thesis by blast
      next
        assume "\<exists>j q. p = (Suc i + j) # q \<and> j < length ks \<and> node_at (ks ! j) q \<noteq> None"
        then obtain j q where "p = (i + Suc j) # q \<and> Suc j < length (k # ks) \<and> node_at ((k # ks) ! Suc j) q \<noteq> None"
          by auto
        then show ?thesis by blast
      qed
    next
      assume "\<exists>j q. p = (i + j) # q \<and> j < length (k # ks) \<and> node_at ((k # ks) ! j) q \<noteq> None"
      then obtain j q where jq: "p = (i + j) # q" "j < length (k # ks)" "node_at ((k # ks) ! j) q \<noteq> None"
        by blast
      show "(\<exists>q. p = i # q \<and> node_at k q \<noteq> None)
       \<or> (\<exists>j q. p = (Suc i + j) # q \<and> j < length ks \<and> node_at (ks ! j) q \<noteq> None)"
      proof (cases j)
        case 0
        then show ?thesis using jq by auto
      next
        case (Suc j')
        then have "p = (Suc i + j') # q \<and> j' < length ks \<and> node_at (ks ! j') q \<noteq> None"
          using jq by auto
        then show ?thesis by blast
      qed
    qed
    finally show "p \<in> set (paths_from i (k # ks)) \<longleftrightarrow>
       p \<in> {p. \<exists>j q. p = (i + j) # q \<and> j < length (k # ks) \<and> node_at ((k # ks) ! j) q \<noteq> None}"
      by simp
  qed
qed

lemma set_descendants:
  "set (descendants doc this) = {x. strict_prefix this x \<and> node_at doc x \<noteq> None}"
proof (cases "node_at doc this")
  case None
  have "node_at doc x = None" if sp: "strict_prefix this x" for x
  proof -
    obtain q where "x = this @ q" using sp by (auto elim: strict_prefixE')
    then show ?thesis using None by (simp add: node_at_append)
  qed
  then show ?thesis using None by (auto simp: descendants_def)
next
  case (Some n)
  show ?thesis
  proof (rule set_eqI)
    fix x
    have "x \<in> set (descendants doc this) \<longleftrightarrow>
        (\<exists>j q. x = this @ j # q \<and> j < length (children n) \<and> node_at (children n ! j) q \<noteq> None)"
      using Some by (auto simp: descendants_def set_paths(2))
    also have "\<dots> \<longleftrightarrow> (\<exists>j q. x = this @ j # q \<and> node_at n (j # q) \<noteq> None)"
    proof -
      have e: "node_at n (j # q) \<noteq> None \<longleftrightarrow>
          j < length (children n) \<and> node_at (children n ! j) q \<noteq> None" for j q
        by simp
      show ?thesis unfolding e by blast
    qed
    also have "\<dots> \<longleftrightarrow> (\<exists>j q. x = this @ j # q \<and> node_at doc x \<noteq> None)"
    proof -
      have e: "node_at doc (this @ j # q) = node_at n (j # q)" for j q
        using Some by (simp add: node_at_append del: node_at.simps)
      show ?thesis by (metis e)
    qed
    also have "\<dots> \<longleftrightarrow> strict_prefix this x \<and> node_at doc x \<noteq> None"
    proof -
      have "strict_prefix this x \<longleftrightarrow> (\<exists>j q. x = this @ j # q)"
        by (metis strict_prefixE' strict_prefixI')
      then show ?thesis by blast
    qed
    finally show "x \<in> set (descendants doc this) \<longleftrightarrow>
        x \<in> {x. strict_prefix this x \<and> node_at doc x \<noteq> None}"
      by simp
  qed
qed

lemma not_own_descendant: "el \<notin> set (descendants doc el)"
  by (simp add: set_descendants)

lemma climb_prefix: "climb (Some p) this \<longleftrightarrow> prefix this p"
proof (induction p rule: rev_induct)
  case Nil
  show ?case by (subst climb.simps) (auto simp: parentNode_def climb.simps[of None])
next
  case (snoc x q)
  have "climb (Some (q @ [x])) this \<longleftrightarrow> q @ [x] = this \<or> climb (Some q) this"
    by (subst climb.simps) (simp add: parentNode_def)
  then show ?case using snoc by auto
qed

lemma climb_parent: "el \<noteq> [] \<Longrightarrow> climb (parentNode el) this \<longleftrightarrow> strict_prefix this el"
proof -
  assume ne: "el \<noteq> []"
  then obtain q x where e: "el = q @ [x]" by (metis rev_exhaust)
  have "climb (parentNode el) this \<longleftrightarrow> prefix this q"
    using e by (simp add: parentNode_def climb_prefix del: climb.simps)
  also have "\<dots> \<longleftrightarrow> strict_prefix this el"
    using e by (auto simp: strict_prefix_def)
  finally show ?thesis .
qed

lemma document_getElementById_valid:
  assumes "document_getElementById doc i = Some el"
  shows "el \<noteq> [] \<and> node_at doc el \<noteq> None \<and> getAttribute doc el ''id'' = Some i"
proof -
  have f: "find (\<lambda>el. getAttribute doc el ''id'' = Some i) (descendants doc []) = Some el"
    using assms by (auto simp: document_getElementById_def split: if_splits)
  then have "el \<in> set (descendants doc [])" "getAttribute doc el ''id'' = Some i"
    by (auto simp: find_Some_iff)
  then show ?thesis by (auto simp: set_descendants)
qed

lemma getElementById_scoped:
  "getElementById doc this i =
     (case document_getElementById doc i of
        None \<Rightarrow> None
      | Some el \<Rightarrow> if el \<in> set (descendants doc this) then Some el else None)"
proof (cases "document_getElementById doc i")
  case None
  then show ?thesis by (simp add: getElementById_def)
next
  case (Some el)
  then show ?thesis
    using document_getElementById_valid[OF Some]
    by (simp add: getElementById_def climb_parent set_descendants del: climb.simps)
qed

subsection \<open>The filters on the store\<close>

lemma contents_fresh: "contents h (length h) = []"
  by (simp add: contents_def)

lemma contents_append_one: "contents (h @ [xs]) a = (if a = length h then xs else contents h a)"
  by (auto simp: contents_def nth_append)

lemma push_new: "push (h @ [xs]) (length h) x = h @ [xs @ [x]]"
  by (simp add: push_def contents_def)

lemma extend_array_new: "extend_array (h @ [xs]) (length h) ys = h @ [xs @ ys]"
  by (simp add: extend_array_def contents_def)

lemma fold_push_new:
  "fold (\<lambda>el h'. if P el then push h' (length h) el else h') els (h @ [acc])
     = h @ [acc @ filter P els]"
  by (induction els arbitrary: acc) (simp_all add: push_new)

lemma fold_extend_array_new:
  "fold (\<lambda>el h'. extend_array h' (length h) (f el)) els (h @ [acc])
     = h @ [acc @ concat (map f els)]"
  by (induction els arbitrary: acc) (simp_all add: extend_array_new)

lemma filterById_store:
  "filterById doc i this h =
     (h @ [filter (\<lambda>el. elem_id doc el = i) (contents h this)], length h)"
  by (simp add: filterById_def new_array_def contents_append_one contents_fresh
      fold_push_new[where acc="[]", simplified])

lemma filterByClassName_store:
  "filterByClassName doc cls this h =
     (h @ [filter (\<lambda>el. hasClass doc el cls) (contents h this)], length h)"
  by (simp add: filterByClassName_def new_array_def contents_append_one contents_fresh
      fold_push_new[where acc="[]", simplified])

lemma filterByTagName_store:
  "filterByTagName doc t this h =
     (h @ [concat (map (\<lambda>el. getElementsByTagName doc el t) (contents h this))], length h)"
  by (simp add: filterByTagName_def new_array_def contents_append_one contents_fresh
      fold_extend_array_new[where acc="[]", simplified])

lemma each_attribute_new:
  "\<exists>pushed e. each_attribute doc name value operator (length h) els (h @ [acc])
       = (h @ [acc @ pushed], e)
     \<and> set pushed \<subseteq> {el \<in> set els. attribute_passes doc name value operator el = Inr True}"
proof (induction els arbitrary: acc)
  case Nil
  then show ?case by simp
next
  case (Cons el els)
  show ?case
  proof (cases "attribute_passes doc name value operator el")
    case (Inl e)
    then show ?thesis by simp
  next
    case (Inr pass)
    show ?thesis
    proof (cases pass)
      case True
      obtain pushed e where
        "each_attribute doc name value operator (length h) els (h @ [acc @ [el]])
           = (h @ [(acc @ [el]) @ pushed], e)"
        "set pushed \<subseteq> {el \<in> set els. attribute_passes doc name value operator el = Inr True}"
        using Cons.IH[of "acc @ [el]"] by blast
      then have
        "each_attribute doc name value operator (length h) (el # els) (h @ [acc])
           = (h @ [acc @ (el # pushed)], e)
         \<and> set (el # pushed)
             \<subseteq> {x \<in> set (el # els). attribute_passes doc name value operator x = Inr True}"
        using Inr True by (auto simp: push_new)
      then show ?thesis by blast
    next
      case False
      obtain pushed e where
        "each_attribute doc name value operator (length h) els (h @ [acc])
           = (h @ [acc @ pushed], e)"
        "set pushed \<subseteq> {el \<in> set els. attribute_passes doc name value operator el = Inr True}"
        using Cons.IH[of acc] by blast
      then have
        "each_attribute doc name value operator (length h) (el # els) (h @ [acc])
           = (h @ [acc @ pushed], e)
         \<and> set pushed
             \<subseteq> {x \<in> set (el # els). attribute_passes doc name value operator x = Inr True}"
        using Inr False by auto
      then show ?thesis by blast
    qed
  qed
qed

lemma filterByAttribute_store:
  "\<exists>pushed r. filterByAttribute doc name value operator this h = (h @ [pushed], r)
     \<and> set pushed
         \<subseteq> {el \<in> set (contents h this). attribute_passes doc name value operator el = Inr True}
     \<and> (r = Inr (length h) \<or> (\<exists>e. r = Inl e))"
proof -
  obtain pushed e where
    "each_attribute doc name value operator (length h) (contents h this) (h @ [[]])
       = (h @ [[] @ pushed], e)"
    "set pushed
       \<subseteq> {el \<in> set (contents h this). attribute_passes doc name value operator el = Inr True}"
    using each_attribute_new[of doc name "value" operator h "contents h this" "[]"] by blast
  then show ?thesis
    by (cases e)
       (simp_all add: filterByAttribute_def new_array_def contents_append_one contents_fresh)
qed

lemma filtered_filterById:
  "filtered (filterById doc i) els = filter (\<lambda>el. elem_id doc el = i) els"
  by (simp add: filtered_def filterById_store contents_def)

lemma filtered_filterByClassName:
  "filtered (filterByClassName doc cls) els = filter (\<lambda>el. hasClass doc el cls) els"
  by (simp add: filtered_def filterByClassName_store contents_def)

lemma filtered_filterByTagName:
  "filtered (filterByTagName doc t) els = concat (map (\<lambda>el. getElementsByTagName doc el t) els)"
  by (simp add: filtered_def filterByTagName_store contents_def)

subsection \<open>The attribute filter\<close>

lemma each_attribute_known:
  assumes "\<forall>el\<in>set els. attribute_passes doc name value operator el = Inr (P el)"
  shows "each_attribute doc name value operator (length h) els (h @ [acc])
     = (h @ [acc @ filter P els], None)"
  using assms
proof (induction els arbitrary: acc)
  case Nil
  then show ?case by simp
next
  case (Cons el els)
  then show ?case by (simp add: push_new)
qed

lemma filtered_attribute_known:
  assumes "\<forall>el\<in>set els. attribute_passes doc name value operator el = Inr (P el)"
  shows "filtered_or_error (filterByAttribute doc name value operator) els = Inr (filter P els)"
  using each_attribute_known[OF assms, of "[els]" "[]"]
  by (simp add: filtered_or_error_def filterByAttribute_def new_array_def contents_def)

lemma filtered_attribute_subset:
  assumes "filtered_or_error (filterByAttribute doc name value operator) els = Inr found"
  shows "set found \<subseteq> {el \<in> set els. attribute_passes doc name value operator el = Inr True}"
proof -
  obtain pushed r where p:
    "filterByAttribute doc name value operator 0 [els] = ([els] @ [pushed], r)"
    "set pushed \<subseteq> {el \<in> set (contents [els] 0). attribute_passes doc name value operator el = Inr True}"
    "r = Inr (length [els]) \<or> (\<exists>e. r = Inl e)"
    using filterByAttribute_store[of doc name "value" operator 0 "[els]"] by blast
  have "found = pushed" using assms p(1,3) by (auto simp: filtered_or_error_def contents_def)
  then show ?thesis using p(2) by (simp add: contents_def)
qed

lemma attribute_passes_clause:
  assumes "test tok selector_re = Some g"
  shows "attribute_passes doc name (g 6) (g 5) el =
     Inr (case getAttribute doc el name of
            None \<Rightarrow> False
          | Some att \<Rightarrow> att \<noteq> [] \<and> spec_attribute_table (g 5) att (to_string (g 6)))"
proof -
  consider (none) "g 5 = None" |
    (some) op v where "g 5 = Some op" "op \<in> {''='', ''*='', ''^='', ''$=''}"
      "g 6 = Some v" "\<forall>c\<in>set v. is_word c"
    using selector_caps[OF assms] by auto
  then show ?thesis
  proof cases
    case none
    then show ?thesis
      by (simp add: attribute_passes_def truthy_def spec_attribute_table_def split: option.splits)
  next
    case some
    have t: "truthy (Some op)" "to_string (Some op) = op" "to_string (Some v) = v"
      using some(2) by (auto simp: truthy_def to_string_def)
    have "attribute_switch op att (Some v) = Inr (spec_attribute_table (Some op) att v)" for att
      using attribute_switch_table[OF some(4), of att] some(2) by auto
    then show ?thesis
      by (simp add: attribute_passes_def t some(1,3) split: option.splits)
  qed
qed

lemma filtered_attribute_captures:
  assumes "test tok selector_re = Some g"
  shows "filtered_or_error (filterByAttribute doc name (g 6) (g 5)) els =
     Inr [el \<leftarrow> els. case getAttribute doc el name of
                       None \<Rightarrow> False
                     | Some att \<Rightarrow> att \<noteq> [] \<and>
                         spec_attribute_table (g 5) att (to_string (g 6))]"
  by (rule filtered_attribute_known) (simp add: attribute_passes_clause[OF assms])

lemmas class_defs = is_word_def is_name_def is_quote_def is_opchar_def
lemmas match_defs = selector_match_def test_def selector_re_def associate_def truthy_def
  to_string_def

subsection \<open>The claims about the filters\<close>

text \<open>
  Claim C1, as amended. For every token that the selector pattern accepts, every attribute
  name and every result set, \<^verbatim>\<open>filterByAttribute\<close> with the operator and the value of the
  token returns, in order, exactly the elements whose attribute is present, is not the empty
  string and satisfies the table of the spec: any value with no operator, equality for
  \<^verbatim>\<open>=\<close>, "contains" for \<^verbatim>\<open>*=\<close>, "starts with" for \<^verbatim>\<open>^=\<close> and "ends with" for
  \<^verbatim>\<open>$=\<close>. An element without the attribute, or with the empty string for it, does not
  pass.
\<close>

theorem attribute_filter_truth_table:
  assumes "selector_match tok = Some p"
  shows "filtered_or_error (filterByAttribute doc name (param_value p) (param_operator p)) els =
     Inr [el \<leftarrow> els. case getAttribute doc el name of
                       None \<Rightarrow> False
                     | Some att \<Rightarrow> att \<noteq> [] \<and>
                         spec_attribute_table (param_operator p) att (to_string (param_value p))]"
proof -
  obtain g where g: "test tok selector_re = Some g" "p = associate g"
    using assms by (auto simp: selector_match_def)
  have pv: "param_value p = g 6" and po: "param_operator p = g 5"
    using g(2) by (simp_all add: associate_def)
  show ?thesis
    unfolding pv po by (rule filtered_attribute_captures[OF g(1)])
qed

text \<open>The theorem at the token \<^verbatim>\<open>a[href^=http]\<close> and the three anchors of the example
  page: only the anchor whose \<^verbatim>\<open>href\<close> starts with "http" is returned.\<close>

theorem attribute_filter_truth_table_witness:
  "selector_match ''a[href^=http]'' =
     Some \<lparr>param_tag = ''a'', param_id = None, param_class = None,
       param_attribute = Some ''href'', param_operator = Some ''^='', param_value = Some ''http''\<rparr>
   \<and> filtered_or_error (filterByAttribute example_page ''href'' (Some ''http'') (Some ''^=''))
       [[0, 1], [0, 2], [0, 3]] = Inr [[0, 1]]"
proof -
  have sm: "selector_match ''a[href^=http]'' =
     Some \<lparr>param_tag = ''a'', param_id = None, param_class = None,
       param_attribute = Some ''href'', param_operator = Some ''^='', param_value = Some ''http''\<rparr>"
    by (simp add: match_defs class_defs)
  show ?thesis
    using sm attribute_filter_truth_table[OF sm, of example_page "''href''" "[[0, 1], [0, 2], [0, 3]]"]
    by (simp add: to_string_def getAttribute_def example_page_def spec_attribute_table_def)
qed

text \<open>
  The claim as the spec has it fails where the attribute is the empty string: the token
  \<^verbatim>\<open>input[disabled=]\<close> is accepted with the operator \<^verbatim>\<open>=\<close> and the empty value, the
  input of the example page has \<^verbatim>\<open>disabled=""\<close>, which is equal to that value, and the
  element does not pass.
\<close>

theorem equal_empty_attribute_fails:
  "selector_match ''input[disabled=]'' =
     Some \<lparr>param_tag = ''input'', param_id = None, param_class = None,
       param_attribute = Some ''disabled'', param_operator = Some ''='', param_value = Some []\<rparr>
   \<and> getAttribute example_page [0, 4] ''disabled'' = Some []
   \<and> filtered_or_error (filterByAttribute example_page ''disabled'' (Some []) (Some ''=''))
       [[0, 4]] = Inr []"
proof -
  have sm: "selector_match ''input[disabled=]'' =
     Some \<lparr>param_tag = ''input'', param_id = None, param_class = None,
       param_attribute = Some ''disabled'', param_operator = Some ''='', param_value = Some []\<rparr>"
    by (simp add: match_defs class_defs)
  have ga: "getAttribute example_page [0, 4] ''disabled'' = Some []"
    by (simp add: getAttribute_def example_page_def)
  have "filtered_or_error (filterByAttribute example_page ''disabled'' (Some []) (Some ''=''))
       [[0, 4]] = Inr []"
    using filtered_attribute_known[of "[[0, 4]]" example_page "''disabled''" "Some []" "Some ''=''"
        "\<lambda>el. False"]
    by (simp add: attribute_passes_def ga)
  then show ?thesis using sm ga by simp
qed

text \<open>
  Claim C9. When the named attribute of an element is the empty string,
  \<^verbatim>\<open>filterByAttribute\<close> returns the empty set for the set of that element alone, with
  any operator and any value and without compiling a pattern, and the element is in no
  result of \<^verbatim>\<open>filterByAttribute\<close> for that name.
\<close>

theorem empty_attribute_never_passes:
  assumes "getAttribute doc el name = Some []"
  shows "filtered_or_error (filterByAttribute doc name value operator) [el] = Inr []
     \<and> (\<forall>found. filtered_or_error (filterByAttribute doc name value operator) els = Inr found
           \<longrightarrow> el \<notin> set found)"
proof -
  have np: "attribute_passes doc name value operator el = Inr False"
    using assms by (simp add: attribute_passes_def)
  have "filtered_or_error (filterByAttribute doc name value operator) [el] = Inr []"
    using filtered_attribute_known[of "[el]" doc name "value" operator "\<lambda>el. False"] np by simp
  moreover have "el \<notin> set found"
    if "filtered_or_error (filterByAttribute doc name value operator) els = Inr found" for found
    using filtered_attribute_subset[OF that] np by auto
  ultimately show ?thesis by blast
qed

text \<open>The theorem at the input of the example page, whose \<^verbatim>\<open>name\<close> is the empty
  string.\<close>

theorem empty_attribute_never_passes_witness:
  "getAttribute example_page [0, 4] ''name'' = Some []
   \<and> filtered_or_error (filterByAttribute example_page ''name'' (Some ''('') (Some ''*=''))
       [[0, 4]] = Inr []
   \<and> filtered_or_error (filterByAttribute example_page ''name'' None None)
       [[0, 3], [0, 4]] = Inr [[0, 3]]
   \<and> [0, 4] \<notin> set [[0, 3 :: nat]]"
proof -
  have ga: "getAttribute example_page [0, 4] ''name'' = Some []"
    by (simp add: getAttribute_def example_page_def)
  have "filtered_or_error (filterByAttribute example_page ''name'' None None)
       [[0, 3], [0, 4]] = Inr [el \<leftarrow> [[0, 3], [0, 4]]. el = [0, 3]]"
    by (rule filtered_attribute_known)
       (simp add: attribute_passes_def getAttribute_def example_page_def truthy_def)
  then show ?thesis
    using ga empty_attribute_never_passes[OF ga, of "Some ''(''" "Some ''*=''" "[[0, 3], [0, 4]]"]
    by simp
qed

text \<open>
  Claim C3, as amended. \<^verbatim>\<open>filterByTagName\<close> returns, for each element of the set in
  order, the elements below it with the tag name, concatenated. What an element contributes
  are the elements strictly below it, so it never contributes itself; an element of the set is
  in the result exactly when it has the tag and lies below an element of the set.
\<close>

theorem filterByTagName_expands:
  "filtered (filterByTagName doc t) els = concat (map (\<lambda>el. getElementsByTagName doc el t) els)
   \<and> set (getElementsByTagName doc el t)
       = {x. strict_prefix el x \<and> node_at doc x \<noteq> None \<and> has_tag doc t x}
   \<and> el \<notin> set (getElementsByTagName doc el t)
   \<and> (x \<in> set (filtered (filterByTagName doc t) els)
       \<longleftrightarrow> (\<exists>e\<in>set els. strict_prefix e x \<and> node_at doc x \<noteq> None \<and> has_tag doc t x))"
proof -
  have a: "set (getElementsByTagName doc e t)
       = {x. strict_prefix e x \<and> node_at doc x \<noteq> None \<and> has_tag doc t x}" for e
    by (auto simp: getElementsByTagName_def set_descendants)
  have b: "el \<notin> set (getElementsByTagName doc el t)"
    by (simp add: a)
  have c: "x \<in> set (filtered (filterByTagName doc t) els)
       \<longleftrightarrow> (\<exists>e\<in>set els. strict_prefix e x \<and> node_at doc x \<noteq> None \<and> has_tag doc t x)"
    by (simp add: filtered_filterByTagName a)
  show ?thesis using filtered_filterByTagName[of doc t els] a[of el] b c by blast
qed

text \<open>
  The claim as the spec has it ("an input element itself is never included in the output")
  fails for a set that holds an element and one below it: with the \<^verbatim>\<open>div\<close> of the
  example page and its first \<^verbatim>\<open>p\<close> in the set, that \<^verbatim>\<open>p\<close> is returned.
\<close>

theorem nested_input_is_returned:
  "filtered (filterByTagName example_page ''p'') [[0, 0], [0, 0, 0]] = [[0, 0, 0], [0, 0, 1]]
   \<and> [0, 0, 0] \<in> set [[0, 0], [0, 0, 0 :: nat]]
   \<and> getTag example_page [0, 0, 0] = ''p''"
  by (simp add: filtered_filterByTagName getElementsByTagName_def descendants_def has_tag_def
      getTag_def example_page_def)


subsection \<open>The loop over the tokens\<close>

lemma narrow_clause:
  assumes "selector_match tok = Some p"
  shows "narrow doc p filters =
     Inr [el \<leftarrow> filters.
            (truthy (param_class p) \<longrightarrow> hasClass doc el (to_string (param_class p)))
          \<and> (truthy (param_attribute p) \<longrightarrow>
               (case getAttribute doc el (to_string (param_attribute p)) of
                  None \<Rightarrow> False
                | Some att \<Rightarrow> att \<noteq> [] \<and>
                    spec_attribute_table (param_operator p) att (to_string (param_value p))))]"
proof -
  obtain g where g: "test tok selector_re = Some g" "p = associate g"
    using assms by (auto simp: selector_match_def)
  have pv: "param_value p = g 6" and po: "param_operator p = g 5"
    using g(2) by (simp_all add: associate_def)
  have h: "filtered_or_error (filterByAttribute doc name (param_value p) (param_operator p)) els =
     Inr [el \<leftarrow> els. case getAttribute doc el name of
                       None \<Rightarrow> False
                     | Some att \<Rightarrow> att \<noteq> [] \<and>
                         spec_attribute_table (param_operator p) att (to_string (param_value p))]"
    for name els
    unfolding pv po by (rule filtered_attribute_captures[OF g(1)])
  show ?thesis
    by (simp add: narrow_def Let_def filtered_filterByClassName h conj_commute cong: conj_cong)
qed

lemma select_total: "\<exists>r. select doc this sel i filters = Inr r"
proof (cases "selector_match sel")
  case None
  then show ?thesis by (simp add: select_def)
next
  case (Some p)
  have "\<exists>r. narrow doc p f = Inr r" for f
    using narrow_clause[OF Some] by simp
  then show ?thesis
    using Some by (simp add: select_def Let_def split: option.splits)
qed

lemma each_selector_total: "\<exists>r. each_selector doc this sels i filters = Inr r"
proof (induction sels arbitrary: i filters)
  case Nil
  then show ?case by simp
next
  case (Cons sel sels)
  obtain f where "select doc this sel i filters = Inr f" using select_total by blast
  then show ?case using Cons.IH[of "Suc i" f] by simp
qed

lemma getElements_total: "\<exists>r. getElements doc this selector = Inr r"
  by (simp add: getElements_def each_selector_total)

lemma select_unmatched: "selector_match bad = None \<Longrightarrow> select doc this bad i filters = Inr filters"
  by (simp add: select_def)

lemma select_later: "select doc this sel (Suc i) filters = select doc this sel (Suc j) filters"
  by (cases "selector_match sel") (simp_all add: select_def)

lemma each_selector_later:
  "each_selector doc this sels (Suc i) filters = each_selector doc this sels (Suc j) filters"
proof (induction sels arbitrary: i j filters)
  case Nil
  then show ?case by simp
next
  case (Cons sel sels)
  obtain f where f: "select doc this sel (Suc i) filters = Inr f" using select_total by blast
  then have "select doc this sel (Suc j) filters = Inr f" using select_later[of doc this sel j filters i] by simp
  then show ?case using f Cons.IH[of "Suc i" f "Suc j"] by simp
qed

lemma each_selector_append:
  "each_selector doc this (pre @ rest) i filters =
     (case each_selector doc this pre i filters of
        Inl e \<Rightarrow> Inl e
      | Inr f \<Rightarrow> each_selector doc this rest (i + length pre) f)"
proof (induction pre arbitrary: i filters)
  case Nil
  then show ?case by simp
next
  case (Cons sel pre)
  obtain f where f: "select doc this sel i filters = Inr f" using select_total by blast
  obtain f' where "each_selector doc this pre (Suc i) f = Inr f'"
    using each_selector_total by blast
  then show ?case using f Cons.IH[of "Suc i" f] by simp
qed

lemma each_selector_skip:
  assumes "selector_match bad = None" "pre \<noteq> []"
  shows "each_selector doc this (pre @ bad # post) 0 [] = each_selector doc this (pre @ post) 0 []"
proof -
  obtain f where f: "each_selector doc this pre 0 [] = Inr f" using each_selector_total by blast
  obtain n where n: "length pre = Suc n" using assms(2) by (cases pre) auto
  have "each_selector doc this (pre @ bad # post) 0 [] = each_selector doc this post (Suc (Suc n)) f"
    using f n by (simp add: each_selector_append select_unmatched[OF assms(1)])
  also have "\<dots> = each_selector doc this post (Suc n) f"
    by (rule each_selector_later)
  also have "\<dots> = each_selector doc this (pre @ post) 0 []"
    using f n by (simp add: each_selector_append)
  finally show ?thesis .
qed

lemma split_clean_div_bad: "split CHR '' '' (clean ''div a[bad'') = [''div'', ''a[bad'']"
  by (simp add: clean_def trim_def is_space_def)

lemma split_clean_div: "split CHR '' '' (clean ''div'') = [''div'']"
  by (simp add: clean_def trim_def is_space_def)

lemma unmatched_bad: "selector_match ''a[bad'' = None"
  by (simp add: match_defs class_defs)

lemma getElements_div_bad: "getElements doc this ''div a[bad'' = getElements doc this ''div''"
  using each_selector_skip[OF unmatched_bad, of "[''div'']" doc this "[]"]
  by (simp add: getElements_def split_clean_div_bad split_clean_div del: each_selector.simps)

lemma each_compound_results:
  "\<exists>found. map (getElements doc this) sels = map Inr found
     \<and> each_compound doc this sels els = Inr (els @ concat found)"
proof (induction sels arbitrary: els)
  case Nil
  then show ?case by simp
next
  case (Cons sel sels)
  obtain r where r: "getElements doc this sel = Inr r" using getElements_total by blast
  obtain found where f: "map (getElements doc this) sels = map Inr found"
    "each_compound doc this sels (els @ r) = Inr ((els @ r) @ concat found)"
    using Cons.IH[of "els @ r"] by blast
  have "map (getElements doc this) (sel # sels) = map Inr (r # found)
     \<and> each_compound doc this (sel # sels) els = Inr (els @ concat (r # found))"
    using r f by simp
  then show ?case by blast
qed

lemma count_list_concat:
  "count_list (concat xss) x = sum_list (map (\<lambda>xs. count_list xs x) xss)"
  by (induction xss) simp_all

lemma narrow_Nil: "selector_match tok = Some p \<Longrightarrow> narrow doc p [] = Inr []"
  by (simp add: narrow_clause)

lemma descendants_below_document: "set (descendants doc this) \<subseteq> set (descendants doc [])"
proof
  fix x
  assume "x \<in> set (descendants doc this)"
  then have "strict_prefix this x" "node_at doc x \<noteq> None" by (simp_all add: set_descendants)
  then have "x \<noteq> []" by auto
  then have "strict_prefix [] x" by (cases x) simp_all
  then show "x \<in> set (descendants doc [])"
    using \<open>node_at doc x \<noteq> None\<close> by (simp add: set_descendants)
qed

lemma getElementById_document: "getElementById doc [] i = document_getElementById doc i"
proof (cases "document_getElementById doc i")
  case None
  then show ?thesis by (simp add: getElementById_def)
next
  case (Some el)
  then have "el \<in> set (descendants doc [])"
    by (auto simp: document_getElementById_def find_Some_iff split: if_splits)
  then show ?thesis using Some by (simp add: getElementById_scoped)
qed

lemma find_unique:
  assumes "length (filter P xs) \<le> 1" "set ys \<subseteq> set xs"
  shows "find P ys = (case find P xs of None \<Rightarrow> None | Some x \<Rightarrow> if x \<in> set ys then Some x else None)"
proof (cases "find P xs")
  case None
  then have "\<forall>x\<in>set xs. \<not> P x" by (simp add: find_None_iff)
  then have "find P ys = None" using assms(2) by (auto simp: find_None_iff)
  then show ?thesis using None by simp
next
  case (Some x)
  then have x: "x \<in> set xs" "P x" by (auto simp: find_Some_iff)
  then have "x \<in> set (filter P xs)" by simp
  have fx: "filter P xs = [x]"
  proof (cases "filter P xs")
    case Nil
    then show ?thesis using \<open>x \<in> set (filter P xs)\<close> by simp
  next
    case (Cons y ws)
    then have "ws = []" using assms(1) by simp
    then show ?thesis using Cons \<open>x \<in> set (filter P xs)\<close> by simp
  qed
  have only: "y = x" if "y \<in> set xs" "P y" for y
  proof -
    have "y \<in> set (filter P xs)" using that by simp
    then show ?thesis by (simp add: fx)
  qed
  show ?thesis
  proof (cases "x \<in> set ys")
    case True
    then obtain y where y: "find P ys = Some y"
      using x(2) by (cases "find P ys") (auto simp: find_None_iff)
    then have "y \<in> set ys" "P y" by (auto simp: find_Some_iff)
    then have "y = x" using only assms(2) by blast
    then show ?thesis using y Some True by simp
  next
    case False
    have "find P ys = None"
    proof (cases "find P ys")
      case None
      then show ?thesis .
    next
      case (Some y)
      then have "y \<in> set ys" "P y" by (auto simp: find_Some_iff)
      then have "y = x" using only assms(2) by blast
      then show ?thesis using False \<open>y \<in> set ys\<close> by simp
    qed
    then show ?thesis using Some False by simp
  qed
qed

lemma getElementById_unique:
  assumes "i \<noteq> []"
    and "length [el \<leftarrow> descendants doc []. getAttribute doc el ''id'' = Some i] \<le> 1"
  shows "getElementById doc this i
     = find (\<lambda>el. getAttribute doc el ''id'' = Some i) (descendants doc this)"
  using find_unique[OF assms(2) descendants_below_document[of doc this]] assms(1)
  by (simp add: getElementById_scoped document_getElementById_def)

lemma set_getElementsByTagName:
  "set (getElementsByTagName doc this t)
     = {x. strict_prefix this x \<and> node_at doc x \<noteq> None \<and> has_tag doc t x}"
  by (auto simp: getElementsByTagName_def set_descendants)

subsection \<open>The claims about the queries\<close>

text \<open>
  Claim C2, as amended. A token that the selector pattern does not accept is skipped: the
  function called on it returns the candidate set as it is and no error; a selector with such
  a token after its first token has the result of the selector without it; and
  \<^verbatim>\<open>queryAll("div a[bad", scope)\<close> is \<^verbatim>\<open>queryAll("div", scope)\<close> for every page and
  scope.
\<close>

theorem malformed_token_skipped:
  assumes "selector_match bad = None"
  shows "select doc this bad i filters = Inr filters
     \<and> (\<forall>s s' pre post.
          pre \<noteq> [] \<and> split CHR '' '' (clean s) = pre @ bad # post
            \<and> split CHR '' '' (clean s') = pre @ post
          \<longrightarrow> getElements doc this s = getElements doc this s')
     \<and> getElementsBySelector doc this ''div a[bad'' = getElementsBySelector doc this ''div''"
proof -
  have "getElements doc this s = getElements doc this s'"
    if "pre \<noteq> []" "split CHR '' '' (clean s) = pre @ bad # post"
      "split CHR '' '' (clean s') = pre @ post" for s s' pre post
    using that each_selector_skip[OF assms that(1)] by (simp add: getElements_def)
  moreover have "getElementsBySelector doc this ''div a[bad'' = getElementsBySelector doc this ''div''"
    by (simp add: getElementsBySelector_def getElements_div_bad)
  ultimately show ?thesis using select_unmatched[OF assms] by blast
qed

text \<open>The theorem at the token \<^verbatim>\<open>a[bad\<close>, on the example page.\<close>

theorem malformed_token_skipped_witness:
  "selector_match ''a[bad'' = None
   \<and> select example_page [] ''a[bad'' 1 [[0, 0]] = Inr [[0, 0]]
   \<and> split CHR '' '' (clean ''div a[bad'') = [''div''] @ ''a[bad'' # []
   \<and> split CHR '' '' (clean ''div'') = [''div''] @ []
   \<and> getElements example_page [] ''div a[bad'' = getElements example_page [] ''div''
   \<and> getElementsBySelector example_page [] ''div a[bad'' = Inr [[0, 0]]"
proof -
  have d: "getElementsBySelector example_page [] ''div'' = Inr [[0, 0]]"
    by (simp add: getElementsBySelector_def getElements_def split_clean_div select_def
        match_defs class_defs narrow_def getElementsByTagName_def descendants_def has_tag_def
        example_page_def)
  note t = malformed_token_skipped[OF unmatched_bad, of example_page "[]" 1 "[[0, 0]]"]
  have a: "select example_page [] ''a[bad'' 1 [[0, 0]] = Inr [[0, 0]]"
    using t by blast
  have q: "getElements example_page [] s = getElements example_page [] s'"
    if "pre \<noteq> []" "split CHR '' '' (clean s) = pre @ ''a[bad'' # post"
      "split CHR '' '' (clean s') = pre @ post" for s s' pre post
    using t that by blast
  have b: "getElements example_page [] ''div a[bad'' = getElements example_page [] ''div''"
    by (rule q[of "[''div'']" _ "[]"]) (simp_all add: split_clean_div_bad split_clean_div)
  have c: "getElementsBySelector example_page [] ''div a[bad'' = Inr [[0, 0]]"
    using t d by simp
  show ?thesis
    using unmatched_bad a b c split_clean_div_bad split_clean_div by simp
qed

text \<open>
  The claim as the spec has it, for every token of a selector, fails for the first token: the
  tokens keep their index, so after a first token that is not accepted no token is taken for
  the first, and \<^verbatim>\<open>a[bad div\<close> has the empty result on the example page, where
  \<^verbatim>\<open>div\<close> finds the \<^verbatim>\<open>div\<close>.
\<close>

theorem malformed_first_token_empties:
  "selector_match ''a[bad'' = None
   \<and> split CHR '' '' (clean ''a[bad div'') = [''a[bad'', ''div'']
   \<and> getElementsBySelector example_page [] ''a[bad div'' = Inr []
   \<and> getElementsBySelector example_page [] ''div'' = Inr [[0, 0]]"
proof -
  have sp: "split CHR '' '' (clean ''a[bad div'') = [''a[bad'', ''div'']"
    by (simp add: clean_def trim_def is_space_def)
  have a: "getElementsBySelector example_page [] ''a[bad div'' = Inr []"
    by (simp add: getElementsBySelector_def getElements_def sp select_def unmatched_bad
        match_defs class_defs narrow_def filtered_filterByTagName)
  have d: "getElementsBySelector example_page [] ''div'' = Inr [[0, 0]]"
    by (simp add: getElementsBySelector_def getElements_def split_clean_div select_def
        match_defs class_defs narrow_def getElementsByTagName_def descendants_def has_tag_def
        example_page_def)
  show ?thesis using unmatched_bad sp a d by simp
qed

text \<open>
  Claim C7. \<^verbatim>\<open>getElementsBySelector\<close> splits the selector on commas; every part has a
  result with \<^verbatim>\<open>getElements\<close> on the same scope, and the result of the whole is the
  concatenation of these results in the order of the parts, with nothing removed: an element
  occurs in it as many times as it occurs in the results of the parts together.
\<close>

theorem comma_selectors_concatenate:
  "\<exists>found. map (getElements doc this) (split CHR '','' selector) = map Inr found
     \<and> getElementsBySelector doc this selector = Inr (concat found)
     \<and> (\<forall>el. count_list (concat found) el = sum_list (map (\<lambda>r. count_list r el) found))"
  using each_compound_results[of doc this "split CHR '','' selector" "[]"]
  by (simp add: getElementsBySelector_def count_list_concat)

text \<open>On the example page the first \<^verbatim>\<open>p\<close> matches both parts of \<^verbatim>\<open>p, p.x\<close> and is
  returned twice.\<close>

lemma twice_matched_twice_returned:
  "getElementsBySelector example_page [] ''p, p.x'' = Inr [[0, 0, 0], [0, 0, 1], [0, 0, 0]]"
  by (simp add: getElementsBySelector_def getElements_def clean_def trim_def is_space_def
      select_def match_defs class_defs narrow_def getElementsByTagName_def descendants_def
      has_tag_def filtered_filterByClassName hasClass_def className_def getAttribute_def
      example_page_def)

text \<open>
  Claim C5. \<^verbatim>\<open>getElementsBySelector\<close> returns a result set for every selector and scope,
  and \<^verbatim>\<open>getElement\<close> returns its element at index 0, or none when it is empty;
  in the same way \<^verbatim>\<open>$E\<close> returns the element at index 0 of what \<^verbatim>\<open>$ES\<close>
  returns for the same selector and scope.
\<close>

theorem first_of_query:
  "(\<exists>els. getElementsBySelector doc this selector = Inr els
      \<and> getElement doc this selector = Inr (case els of [] \<Rightarrow> None | el # _ \<Rightarrow> Some el))
   \<and> (\<exists>els. dollar_ES doc selector filter_el = Inr els
      \<and> dollar_E doc selector filter_el = Inr (case els of [] \<Rightarrow> None | el # _ \<Rightarrow> Some el))"
proof -
  have a: "\<exists>els. getElementsBySelector doc sc selector = Inr els
      \<and> getElement doc sc selector = Inr (case els of [] \<Rightarrow> None | el # _ \<Rightarrow> Some el)" for sc
  proof -
    obtain found where "getElementsBySelector doc sc selector = Inr (concat found)"
      using each_compound_results[of doc sc "split CHR '','' selector" "[]"]
      by (auto simp: getElementsBySelector_def)
    then show ?thesis
      by (cases "concat found") (simp_all add: getElement_def index_def)
  qed
  show ?thesis using a[of this] a[of "scope_of filter_el"]
    by (simp add: dollar_E_def dollar_ES_def)
qed

text \<open>
  Claim C6, as amended. When the first token of a selector has an id, there is one lookup of
  the id in the whole page, which yields the first element of the page with the id; the
  element is the only candidate when it lies strictly below the scope and the token's tag is
  \<^verbatim>\<open>*\<close> or the element's tag, and there is no candidate otherwise. When the token has
  no id the candidates are the elements below the scope with the token's tag. The class and
  the attribute of the token then narrow the candidates, and the rest of the tokens go on from
  there. When at most one element of the page has the id, the lookup is the lookup of the id
  among the elements strictly below the scope.
\<close>

theorem first_token_resolution:
  assumes "split CHR '' '' (clean selector) = tok # rest" and "selector_match tok = Some p"
  shows "(\<exists>candidates.
       narrow doc p
         (if truthy (param_id p) then
            (case getElementById doc this (to_string (param_id p)) of
               None \<Rightarrow> []
             | Some el \<Rightarrow>
                 if param_tag p = ''*'' \<or> getTag doc el = param_tag p then [el] else [])
          else getElementsByTagName doc this (param_tag p)) = Inr candidates
       \<and> getElements doc this selector = each_selector doc this rest 1 candidates)
     \<and> getElementById doc this i =
         (case document_getElementById doc i of
            None \<Rightarrow> None
          | Some el \<Rightarrow> if el \<in> set (descendants doc this) then Some el else None)
     \<and> (i \<noteq> [] \<and> length [el \<leftarrow> descendants doc []. getAttribute doc el ''id'' = Some i] \<le> 1
          \<longrightarrow> getElementById doc this i
              = find (\<lambda>el. getAttribute doc el ''id'' = Some i) (descendants doc this))
     \<and> set (getElementsByTagName doc this t)
         = {x. strict_prefix this x \<and> node_at doc x \<noteq> None \<and> has_tag doc t x}
     \<and> getElements doc this selector =
         each_selector doc this rest 1
           [el \<leftarrow> (if truthy (param_id p) then
                     (case document_getElementById doc (to_string (param_id p)) of
                        None \<Rightarrow> []
                      | Some el \<Rightarrow>
                          if strict_prefix this el
                             \<and> (param_tag p = ''*'' \<or> getTag doc el = param_tag p)
                          then [el] else [])
                   else [x \<leftarrow> descendants doc this. has_tag doc (param_tag p) x]).
              (truthy (param_class p) \<longrightarrow> hasClass doc el (to_string (param_class p)))
            \<and> (truthy (param_attribute p) \<longrightarrow>
                 (case getAttribute doc el (to_string (param_attribute p)) of
                    None \<Rightarrow> False
                  | Some att \<Rightarrow> att \<noteq> [] \<and>
                      spec_attribute_table (param_operator p) att (to_string (param_value p))))]"
proof -
  let ?first = "if truthy (param_id p) then
            (case getElementById doc this (to_string (param_id p)) of
               None \<Rightarrow> []
             | Some el \<Rightarrow>
                 if param_tag p = ''*'' \<or> getTag doc el = param_tag p then [el] else [])
          else getElementsByTagName doc this (param_tag p)"
  obtain candidates where c: "narrow doc p ?first = Inr candidates"
    using narrow_clause[OF assms(2)] by blast
  have "select doc this tok 0 [] = narrow doc p ?first"
  proof (cases "truthy (param_id p)")
    case False
    then show ?thesis using assms(2) by (simp add: select_def)
  next
    case True
    show ?thesis
    proof (cases "getElementById doc this (to_string (param_id p))")
      case None
      then show ?thesis
        using assms(2) True by (simp add: select_def narrow_Nil[OF assms(2)])
    next
      case (Some el)
      then show ?thesis
        using assms(2) True by (auto simp add: select_def narrow_Nil[OF assms(2)])
    qed
  qed
  then have g: "getElements doc this selector = each_selector doc this rest 1 candidates"
    using assms(1) c by (simp add: getElements_def)
  then have 1: "\<exists>candidates. narrow doc p ?first = Inr candidates
       \<and> getElements doc this selector = each_selector doc this rest 1 candidates"
    using c by blast
  let ?page = "if truthy (param_id p) then
                     (case document_getElementById doc (to_string (param_id p)) of
                        None \<Rightarrow> []
                      | Some el \<Rightarrow>
                          if strict_prefix this el
                             \<and> (param_tag p = ''*'' \<or> getTag doc el = param_tag p)
                          then [el] else [])
                   else [x \<leftarrow> descendants doc this. has_tag doc (param_tag p) x]"
  have same: "?first = ?page"
  proof (cases "truthy (param_id p)")
    case False
    then show ?thesis by (simp add: getElementsByTagName_def)
  next
    case True
    show ?thesis
    proof (cases "document_getElementById doc (to_string (param_id p))")
      case None
      then show ?thesis using True by (simp add: getElementById_scoped)
    next
      case (Some el)
      have "el \<in> set (descendants doc this) \<longleftrightarrow> strict_prefix this el"
        using document_getElementById_valid[OF Some] by (simp add: set_descendants)
      then show ?thesis using True Some by (simp add: getElementById_scoped)
    qed
  qed
  have 2: "getElements doc this selector =
         each_selector doc this rest 1
           [el \<leftarrow> ?page.
              (truthy (param_class p) \<longrightarrow> hasClass doc el (to_string (param_class p)))
            \<and> (truthy (param_attribute p) \<longrightarrow>
                 (case getAttribute doc el (to_string (param_attribute p)) of
                    None \<Rightarrow> False
                  | Some att \<Rightarrow> att \<noteq> [] \<and>
                      spec_attribute_table (param_operator p) att (to_string (param_value p))))]"
    using g c unfolding same narrow_clause[OF assms(2)] by simp
  show ?thesis
    using 1 2 getElementById_scoped[of doc this i] getElementById_unique[of i doc this]
      set_getElementsByTagName[of doc this t]
    by blast
qed

text \<open>The theorem on the example page: at \<^verbatim>\<open>#a p.x\<close> with the document for the scope
  the \<^verbatim>\<open>div\<close> is found, and at \<^verbatim>\<open>p#a\<close> it is rejected, its tag being
  \<^verbatim>\<open>div\<close>.\<close>

theorem first_token_resolution_witness:
  "split CHR '' '' (clean ''#a p.x'') = ''#a'' # [''p.x'']
   \<and> selector_match ''#a'' =
       Some \<lparr>param_tag = ''*'', param_id = Some ''a'', param_class = None,
         param_attribute = None, param_operator = None, param_value = None\<rparr>
   \<and> ''a'' \<noteq> []
   \<and> length [el \<leftarrow> descendants example_page []. getAttribute example_page el ''id'' = Some ''a'']
       \<le> 1
   \<and> getElementById example_page [] ''a'' = Some [0, 0]
   \<and> getElementById example_page [0, 0] ''a'' = None
   \<and> getElements example_page [] ''#a p.x'' = each_selector example_page [] [''p.x''] 1 [[0, 0]]
   \<and> getElements example_page [] ''#a p.x'' = Inr [[0, 0, 0]]
   \<and> split CHR '' '' (clean ''p#a'') = ''p#a'' # []
   \<and> selector_match ''p#a'' =
       Some \<lparr>param_tag = ''p'', param_id = Some ''a'', param_class = None,
         param_attribute = None, param_operator = None, param_value = None\<rparr>
   \<and> getTag example_page [0, 0] = ''div''
   \<and> getElements example_page [] ''p#a'' = Inr []"
proof -
  have sp2: "split CHR '' '' (clean ''p#a'') = ''p#a'' # []"
    by (simp add: clean_def trim_def is_space_def)
  have sm2: "selector_match ''p#a'' =
       Some \<lparr>param_tag = ''p'', param_id = Some ''a'', param_class = None,
         param_attribute = None, param_operator = None, param_value = None\<rparr>"
    by (simp add: match_defs class_defs)
  have gtag: "getTag example_page [0, 0] = ''div''"
    by (simp add: getTag_def example_page_def)
  have sp: "split CHR '' '' (clean ''#a p.x'') = ''#a'' # [''p.x'']"
    by (simp add: clean_def trim_def is_space_def)
  have sm: "selector_match ''#a'' =
       Some \<lparr>param_tag = ''*'', param_id = Some ''a'', param_class = None,
         param_attribute = None, param_operator = None, param_value = None\<rparr>"
    by (simp add: match_defs class_defs)
  have ds: "descendants example_page []
      = [[0], [0, 0], [0, 0, 0], [0, 0, 1], [0, 1], [0, 2], [0, 3], [0, 4]]"
    by (simp add: descendants_def example_page_def)
  have dd: "descendants example_page [0, 0] = [[0, 0, 0], [0, 0, 1]]"
    by (simp add: descendants_def example_page_def)
  have u: "length [el \<leftarrow> descendants example_page [].
      getAttribute example_page el ''id'' = Some ''a''] \<le> 1"
    unfolding ds by (simp add: getAttribute_def example_page_def)
  note t = first_token_resolution[OF sp sm, of example_page "[]" "''a''"]
  note t' = first_token_resolution[OF sp sm, of example_page "[0, 0]" "''a''"]
  have g: "getElementById example_page [] ''a'' = Some [0, 0]"
  proof -
    have "getElementById example_page [] ''a''
        = find (\<lambda>el. getAttribute example_page el ''id'' = Some ''a'') (descendants example_page [])"
      using t u by blast
    then show ?thesis unfolding ds by (simp add: getAttribute_def example_page_def)
  qed
  have g': "getElementById example_page [0, 0] ''a'' = None"
  proof -
    have "getElementById example_page [0, 0] ''a''
        = find (\<lambda>el. getAttribute example_page el ''id'' = Some ''a'')
            (descendants example_page [0, 0])"
      using t' u by blast
    then show ?thesis unfolding dd by (simp add: getAttribute_def example_page_def)
  qed
  obtain candidates where c:
    "narrow example_page
       \<lparr>param_tag = ''*'', param_id = Some ''a'', param_class = None,
         param_attribute = None, param_operator = None, param_value = None\<rparr>
       [[0, 0]] = Inr candidates"
    "getElements example_page [] ''#a p.x'' = each_selector example_page [] [''p.x''] 1 candidates"
    using t[THEN conjunct1] by (auto simp: truthy_def to_string_def g simp del: each_selector.simps)
  have "candidates = [[0, 0]]"
    using c(1) by (simp add: narrow_def truthy_def)
  moreover have "each_selector example_page [] [''p.x''] 1 [[0, 0]] = Inr [[0, 0, 0]]"
    by (simp add: select_def match_defs class_defs narrow_def filtered_filterByTagName
        filtered_filterByClassName getElementsByTagName_def descendants_def has_tag_def
        hasClass_def className_def getAttribute_def example_page_def)
  ultimately have first: "getElements example_page [] ''#a p.x''
      = each_selector example_page [] [''p.x''] 1 [[0, 0]]"
    "getElements example_page [] ''#a p.x'' = Inr [[0, 0, 0]]"
    using c(2) by simp_all
  have dg: "document_getElementById example_page ''a'' = Some [0, 0]"
    unfolding document_getElementById_def ds
    by (simp add: getAttribute_def example_page_def)
  note r = first_token_resolution[OF sp2 sm2, of example_page "[]",
      THEN conjunct2, THEN conjunct2, THEN conjunct2, THEN conjunct2]
  have rejected: "getElements example_page [] ''p#a'' = Inr []"
    using r by (simp add: truthy_def to_string_def dg gtag)
  show ?thesis using sp sm u g g' first sp2 sm2 gtag rejected by simp
qed

text \<open>
  The claim as the spec has it, a lookup of the id in the subtree of the scope, fails in two
  ways. The scope itself is not found: with the \<^verbatim>\<open>div\<close> of id "a" for the scope,
  \<^verbatim>\<open>#a\<close> and \<^verbatim>\<open>#a p.x\<close> have the empty result. And with two elements of one id
  only the first of the page is looked at: in the page with two elements of id "b", the
  \<^verbatim>\<open>li\<close> of that id lies below the \<^verbatim>\<open>ul\<close>, and \<^verbatim>\<open>#b\<close> with the
  \<^verbatim>\<open>ul\<close> for the scope has the empty result.
\<close>

theorem id_lookup_misses_scope_and_twin:
  "getAttribute example_page [0, 0] ''id'' = Some ''a''
   \<and> getElementsBySelector example_page [0, 0] ''#a'' = Inr []
   \<and> getElementsBySelector example_page [0, 0] ''#a p.x'' = Inr []
   \<and> getAttribute twin_id_page [0, 1, 0] ''id'' = Some ''b''
   \<and> [0, 1, 0] \<in> set (descendants twin_id_page [0, 1])
   \<and> getElementsBySelector twin_id_page [0, 1] ''#b'' = Inr []"
proof -
  have ds: "descendants example_page []
      = [[0], [0, 0], [0, 0, 0], [0, 0, 1], [0, 1], [0, 2], [0, 3], [0, 4]]"
    by (simp add: descendants_def example_page_def)
  have dg: "document_getElementById example_page ''a'' = Some [0, 0]"
    unfolding document_getElementById_def ds
    by (simp add: getAttribute_def example_page_def)
  have dd: "descendants example_page [0, 0] = [[0, 0, 0], [0, 0, 1]]"
    by (simp add: descendants_def example_page_def)
  have g: "getElementById example_page [0, 0] ''a'' = None"
    unfolding getElementById_scoped dg dd by simp
  have dt: "descendants twin_id_page [] = [[0], [0, 0], [0, 1], [0, 1, 0]]"
    by (simp add: descendants_def twin_id_page_def)
  have dgt: "document_getElementById twin_id_page ''b'' = Some [0, 0]"
    unfolding document_getElementById_def dt
    by (simp add: getAttribute_def twin_id_page_def)
  have du: "descendants twin_id_page [0, 1] = [[0, 1, 0]]"
    by (simp add: descendants_def twin_id_page_def)
  have gt: "getElementById twin_id_page [0, 1] ''b'' = None"
    unfolding getElementById_scoped dgt du by simp
  have 1: "getAttribute example_page [0, 0] ''id'' = Some ''a''"
    by (simp add: getAttribute_def example_page_def)
  have 2: "getElementsBySelector example_page [0, 0] ''#a'' = Inr []"
    by (simp add: getElementsBySelector_def getElements_def clean_def trim_def is_space_def
        select_def match_defs class_defs g)
  have 3: "getElementsBySelector example_page [0, 0] ''#a p.x'' = Inr []"
    by (simp add: getElementsBySelector_def getElements_def clean_def trim_def is_space_def
        select_def match_defs class_defs g narrow_def filtered_filterByTagName
        filtered_filterByClassName)
  have 4: "getAttribute twin_id_page [0, 1, 0] ''id'' = Some ''b''"
    by (simp add: getAttribute_def twin_id_page_def)
  have 5: "[0, 1, 0] \<in> set (descendants twin_id_page [0, 1])"
    unfolding du by simp
  have 6: "getElementsBySelector twin_id_page [0, 1] ''#b'' = Inr []"
    using gt
    by (simp add: getElementsBySelector_def getElements_def clean_def trim_def is_space_def
        select_def match_defs class_defs)
  show ?thesis using 1 2 3 4 5 6 by simp
qed

subsection \<open>The effects of action\<close>

lemma bind_key_fields:
  "calls (bind_key el kv s) = calls s"
  "listeners (bind_key el kv s) = (listeners s)(el := listeners s el @ registered [kv])"
  "properties (bind_key el kv s) = (properties s)(el := properties s el ++ map_of (assigned [kv]))"
  by (auto simp: bind_key_def Let_def set_property_def addEvent_def registered_def assigned_def
      split: option.splits)

lemma registered_Cons: "registered (kv # actions) = registered [kv] @ registered actions"
  by (simp add: registered_def)

lemma assigned_Cons: "assigned (kv # actions) = assigned [kv] @ assigned actions"
  by (simp add: assigned_def)

lemma rev_assigned_one: "rev (assigned [kv]) = assigned [kv]"
  by (simp add: assigned_def)

lemma fold_bind_key_fields:
  "calls (fold (bind_key el) actions s) = calls s"
  "listeners (fold (bind_key el) actions s) = (listeners s)(el := listeners s el @ registered actions)"
  "properties (fold (bind_key el) actions s)
     = (properties s)(el := properties s el ++ map_of (rev (assigned actions)))"
proof (induction actions arbitrary: s)
  case Nil
  {
    case 1 show ?case by simp
  next
    case 2 show ?case by (simp add: registered_def)
  next
    case 3 show ?case by (simp add: assigned_def)
  }
next
  case (Cons kv actions)
  {
    case 1 show ?case by (simp add: Cons.IH(1) bind_key_fields(1))
  next
    case 2 show ?case
      by (rule ext) (simp add: Cons.IH(2) bind_key_fields(2) registered_Cons[of kv actions])
  next
    case 3 show ?case
      by (rule ext) (simp add: Cons.IH(3) bind_key_fields(3) assigned_Cons[of kv actions] rev_assigned_one)
  }
qed

lemma action_on_fields:
  "calls (action_on actions el s)
     = calls s @ (case map_of actions ''initialize'' of None \<Rightarrow> [] | Some fn \<Rightarrow> [(fn, el)])"
  "listeners (action_on actions el s) = (listeners s)(el := listeners s el @ registered actions)"
  "properties (action_on actions el s)
     = (properties s)(el := properties s el ++ map_of (rev (assigned actions)))"
  by (simp_all add: action_on_def Let_def fold_bind_key_fields apply_to_def split: option.splits)

lemma map_add_twice: "m ++ M ++ M = m ++ M"
  by (rule ext) (simp add: map_add_def split: option.splits)

lemma action_fields:
  "calls (action actions els s)
     = calls s @ (case map_of actions ''initialize'' of None \<Rightarrow> [] | Some fn \<Rightarrow> map (Pair fn) els)"
  "listeners (action actions els s) el
     = listeners s el @ concat (replicate (count_list els el) (registered actions))"
  "properties (action actions els s) el
     = (if el \<in> set els then properties s el ++ map_of (rev (assigned actions))
        else properties s el)"
proof (induction els arbitrary: s)
  case Nil
  {
    case 1 show ?case by (simp add: action_def split: option.splits)
  next
    case 2 show ?case by (simp add: action_def)
  next
    case 3 show ?case by (simp add: action_def)
  }
next
  case (Cons e els)
  have step: "action actions (e # els) s' = action actions els (action_on actions e s')" for s'
    by (simp add: action_def)
  {
    case 1 show ?case
      by (cases "map_of actions ''initialize''")
         (simp_all add: step Cons.IH(1) action_on_fields(1))
  next
    case 2 show ?case
      by (simp add: step Cons.IH(2) action_on_fields(2))
  next
    case 3 show ?case
      by (simp add: step Cons.IH(3) action_on_fields(3) map_add_twice)
  }
qed

lemma bind_key_cases:
  "test key on_re \<noteq> None \<Longrightarrow> bind_key el (key, fn) s = set_property el key fn s"
  "test key on_re = None \<Longrightarrow> test key event_re = Some evt \<Longrightarrow>
     bind_key el (key, fn) s = addEvent el (to_string (evt 1)) fn s"
  "test key on_re = None \<Longrightarrow> test key event_re = None \<Longrightarrow> bind_key el (key, fn) s = s"
  by (auto simp: bind_key_def)

lemma key_onclick: "test ''onclick'' on_re \<noteq> None"
  by (simp add: test_def on_re_def is_word_def)

lemma key_clickevent:
  "test ''clickevent'' on_re = None"
  "map_option (\<lambda>evt. evt 1) (test ''clickevent'' event_re) = Some (Some ''click'')"
  by (simp_all add: test_def on_re_def event_re_def lits_def is_word_def is_name_def)

lemma key_onclickevent:
  "test ''onclickevent'' on_re \<noteq> None"
  "map_option (\<lambda>evt. evt 1) (test ''onclickevent'' event_re) = Some (Some ''onclick'')"
  by (simp_all add: test_def on_re_def event_re_def lits_def is_word_def is_name_def)

lemma key_initialize:
  "test ''initialize'' on_re = None" "test ''initialize'' event_re = None"
  by (simp_all add: test_def on_re_def event_re_def lits_def is_word_def is_name_def)

lemma assigned_onclick: "assigned [(''onclick'', fn)] = [(''onclick'', fn)]"
  using key_onclick by (simp add: assigned_def)

lemma registered_clickevent: "registered [(''clickevent'', fn)] = [(''click'', fn)]"
  using key_clickevent by (auto simp: registered_def to_string_def)

lemma key_mouseoverevent:
  "test ''mouseoverevent'' on_re = None"
  "map_option (\<lambda>evt. evt 1) (test ''mouseoverevent'' event_re) = Some (Some ''mouseover'')"
  by (simp_all add: test_def on_re_def event_re_def lits_def is_word_def is_name_def)

lemma registered_append: "registered (xs @ ys) = registered xs @ registered ys"
  by (simp add: registered_def)

subsection \<open>The claims about action\<close>

text \<open>
  Claim C4, as amended. For every result set and object of actions: a key that matches
  \<^verbatim>\<open>^on[\w]{1,}\<close> is set as a property of the element, over what was there; a key that
  matches \<^verbatim>\<open>([\w-]{1,})event$\<close> and not the first pattern registers one more listener
  for the word before "event"; a key that matches neither has no effect in the loop. For the
  whole of \<^verbatim>\<open>action\<close>: the \<^verbatim>\<open>initialize\<close> function, if present, is called once for
  each element of the set in order, bound to it; each element of the set has the properties of
  the keys of the first kind; and each element has, after the listeners it had, those of the
  keys of the second kind, once for each time it is in the set. So \<^verbatim>\<open>action\<close> with
  \<^verbatim>\<open>onclick\<close> twice leaves the second function, and with \<^verbatim>\<open>clickevent\<close> twice
  leaves both registered.
\<close>

theorem action_binds:
  "(test key on_re \<noteq> None \<longrightarrow> bind_key el (key, fn) s = set_property el key fn s)
   \<and> (test key on_re = None \<and> test key event_re = Some evt \<longrightarrow>
        bind_key el (key, fn) s = addEvent el (to_string (evt 1)) fn s)
   \<and> (test key on_re = None \<and> test key event_re = None \<longrightarrow> bind_key el (key, fn) s = s)
   \<and> calls (action actions els s)
       = calls s @ (case map_of actions ''initialize'' of
                      None \<Rightarrow> []
                    | Some init \<Rightarrow> map (Pair init) els)
   \<and> properties (action actions els s) el
       = (if el \<in> set els then properties s el ++ map_of (rev (assigned actions))
          else properties s el)
   \<and> listeners (action actions els s) el
       = listeners s el @ concat (replicate (count_list els el) (registered actions))
   \<and> (el \<in> set els \<longrightarrow>
        properties (action [(''onclick'', second_fn)] els
          (action [(''onclick'', first_fn)] els s)) el ''onclick'' = Some second_fn)
   \<and> listeners (action [(''clickevent'', second_fn)] els
         (action [(''clickevent'', first_fn)] els s)) el
       = listeners s el @ replicate (count_list els el) (''click'', first_fn)
           @ replicate (count_list els el) (''click'', second_fn)"
proof -
  have r: "concat (replicate n [x]) = replicate n x" for n and x :: "string \<times> handler"
    by (induction n) simp_all
  show ?thesis
    by (intro conjI impI)
       (simp_all add: bind_key_cases action_fields assigned_onclick registered_clickevent r)
qed

text \<open>The theorem at the keys \<^verbatim>\<open>onclick\<close>, \<^verbatim>\<open>mouseoverevent\<close> and
  \<^verbatim>\<open>initialize\<close> and a set of two elements.\<close>

theorem action_binds_witness:
  "test ''onclick'' on_re \<noteq> None
   \<and> bind_key [0, 1] (''onclick'', 1) no_effects = set_property [0, 1] ''onclick'' 1 no_effects
   \<and> test ''mouseoverevent'' on_re = None
   \<and> map_option (\<lambda>evt. evt 1) (test ''mouseoverevent'' event_re) = Some (Some ''mouseover'')
   \<and> bind_key [0, 1] (''mouseoverevent'', 2) no_effects = addEvent [0, 1] ''mouseover'' 2 no_effects
   \<and> test ''initialize'' on_re = None \<and> test ''initialize'' event_re = None
   \<and> bind_key [0, 1] (''initialize'', 3) no_effects = no_effects
   \<and> [0, 1] \<in> set [[0, 1], [0, 2 :: nat]]
   \<and> properties (action [(''onclick'', 5)] [[0, 1], [0, 2]]
         (action [(''onclick'', 4)] [[0, 1], [0, 2]] no_effects)) [0, 1] ''onclick'' = Some 5
   \<and> listeners (action [(''clickevent'', 5)] [[0, 1], [0, 2]]
         (action [(''clickevent'', 4)] [[0, 1], [0, 2]] no_effects)) [0, 1]
       = [(''click'', 4), (''click'', 5)]
   \<and> calls (action [(''initialize'', 3), (''onclick'', 1), (''mouseoverevent'', 2)]
         [[0, 1], [0, 2]] no_effects) = [(3, [0, 1]), (3, [0, 2])]"
proof -
  obtain evt where evt: "test ''mouseoverevent'' event_re = Some evt" "evt 1 = Some ''mouseover''"
    using key_mouseoverevent(2) by auto
  note a = action_binds[where key="''onclick''" and el="[0, 1]" and fn=1 and s=no_effects
      and els="[[0, 1], [0, 2]]" and first_fn=4 and second_fn=5
      and actions="[(''initialize'', 3), (''onclick'', 1), (''mouseoverevent'', 2)]"]
  note b = action_binds[where key="''mouseoverevent''" and el="[0, 1]" and fn=2 and s=no_effects
      and evt=evt]
  note c = action_binds[where key="''initialize''" and el="[0, 1]" and fn=3 and s=no_effects]
  have 1: "bind_key [0, 1] (''onclick'', 1) no_effects = set_property [0, 1] ''onclick'' 1 no_effects"
    using a key_onclick by blast
  have 2: "bind_key [0, 1] (''mouseoverevent'', 2) no_effects
      = addEvent [0, 1] ''mouseover'' 2 no_effects"
    using b key_mouseoverevent(1) evt by (simp add: to_string_def)
  have 3: "bind_key [0, 1] (''initialize'', 3) no_effects = no_effects"
    using c key_initialize by blast
  have 4: "properties (action [(''onclick'', 5)] [[0, 1], [0, 2]]
         (action [(''onclick'', 4)] [[0, 1], [0, 2]] no_effects)) [0, 1] ''onclick'' = Some 5"
    using a by simp
  have 5: "listeners (action [(''clickevent'', 5)] [[0, 1], [0, 2]]
         (action [(''clickevent'', 4)] [[0, 1], [0, 2]] no_effects)) [0, 1]
       = [(''click'', 4), (''click'', 5)]"
    using a by (simp add: no_effects_def)
  have 6: "calls (action [(''initialize'', 3), (''onclick'', 1), (''mouseoverevent'', 2)]
         [[0, 1], [0, 2]] no_effects) = [(3, [0, 1]), (3, [0, 2])]"
    using a by (simp add: no_effects_def)
  show ?thesis
    using key_onclick key_mouseoverevent key_initialize 1 2 3 4 5 6 by simp
qed

text \<open>
  The claim as the spec has it ("every key matching <word>event registers an additional
  event listener") fails for a key that also starts with "on": \<^verbatim>\<open>onclickevent\<close> matches
  the second pattern with the word "onclick", and \<^verbatim>\<open>action\<close> registers no listener for
  it; it sets the property.
\<close>

theorem both_patterns_no_listener:
  "map_option (\<lambda>evt. evt 1) (test ''onclickevent'' event_re) = Some (Some ''onclick'')
   \<and> listeners (action [(''onclickevent'', 7)] [[0, 1]] no_effects) [0, 1] = []
   \<and> properties (action [(''onclickevent'', 7)] [[0, 1]] no_effects) [0, 1] ''onclickevent'' = Some 7"
proof -
  have "registered [(''onclickevent'', 7)] = []"
    "assigned [(''onclickevent'', 7)] = [(''onclickevent'', 7)]"
    using key_onclickevent(1) by (simp_all add: registered_def assigned_def)
  then show ?thesis
    using key_onclickevent(2) by (simp add: action_fields no_effects_def)
qed

text \<open>
  Claim C10. A key that matches both patterns is set as a property and registers no
  listener: the loop does for it what it does for a property, the listeners after
  \<^verbatim>\<open>action\<close> are those of the object without the key, and each element of the set has the
  property (when no later key has the same name).
\<close>

theorem on_prefix_takes_precedence:
  assumes "test key on_re \<noteq> None" and "test key event_re \<noteq> None"
  shows "bind_key el (key, fn) s = set_property el key fn s
     \<and> listeners (bind_key el (key, fn) s) = listeners s
     \<and> listeners (action (pre @ (key, fn) # post) els s) = listeners (action (pre @ post) els s)
     \<and> (el \<in> set els \<and> key \<notin> fst ` set post \<longrightarrow>
          properties (action (pre @ (key, fn) # post) els s) el key = Some fn)"
proof -
  have r: "registered (pre @ (key, fn) # post) = registered (pre @ post)"
    using assms(1) registered_append[of pre "(key, fn) # post"] registered_Cons[of "(key, fn)" post]
    by (simp add: registered_append) (simp add: registered_def)
  have a: "assigned (pre @ (key, fn) # post) = assigned pre @ (key, fn) # assigned post"
    using assms(1) by (simp add: assigned_def)
  have 1: "bind_key el (key, fn) s = set_property el key fn s"
    using assms(1) by (rule bind_key_cases(1))
  have 2: "listeners (bind_key el (key, fn) s) = listeners s"
    unfolding 1 by (simp add: set_property_def)
  have 3: "listeners (action (pre @ (key, fn) # post) els s) = listeners (action (pre @ post) els s)"
    by (rule ext) (simp add: action_fields(2) r)
  have 4: "properties (action (pre @ (key, fn) # post) els s) el key = Some fn"
    if "el \<in> set els" "key \<notin> fst ` set post"
  proof -
    have "key \<notin> fst ` set (rev (assigned post))" using that(2) by (auto simp: assigned_def)
    then have "map_of (rev (assigned post)) key = None" by (simp add: map_of_eq_None_iff)
    then show ?thesis using that(1) by (simp add: action_fields(3) a map_add_def)
  qed
  show ?thesis using 1 2 3 4 by blast
qed

text \<open>The theorem at the key \<^verbatim>\<open>onclickevent\<close>.\<close>

theorem on_prefix_takes_precedence_witness:
  "test ''onclickevent'' on_re \<noteq> None \<and> test ''onclickevent'' event_re \<noteq> None
   \<and> bind_key [0, 1] (''onclickevent'', 7) no_effects
       = set_property [0, 1] ''onclickevent'' 7 no_effects
   \<and> listeners (action [(''clickevent'', 6), (''onclickevent'', 7)] [[0, 1], [0, 2]] no_effects)
       = listeners (action [(''clickevent'', 6)] [[0, 1], [0, 2]] no_effects)
   \<and> [0, 1] \<in> set [[0, 1], [0, 2 :: nat]] \<and> ''onclickevent'' \<notin> fst ` set ([] :: (string \<times> handler) list)
   \<and> properties (action [(''clickevent'', 6), (''onclickevent'', 7)] [[0, 1], [0, 2]] no_effects)
         [0, 1] ''onclickevent'' = Some 7"
proof -
  have e: "test ''onclickevent'' event_re \<noteq> None"
    using key_onclickevent(2) by auto
  note t = on_prefix_takes_precedence[OF key_onclickevent(1) e, of "[0, 1]" 7 no_effects
      "[(''clickevent'', 6)]" "[]" "[[0, 1], [0, 2]]"]
  show ?thesis using key_onclickevent(1) e t by simp
qed

end
